theory Spec2Isabelle
  imports Complex_Main
begin

section \<open>Strings, digits and numbers of the JavaScript runtime\<close>

text \<open>
  The plugin is one JavaScript file, \<^verbatim>\<open>src/index.js\<close>. Strings are modelled as
  \<^typ>\<open>string\<close>; a character stands for the code unit of the same value, so the
  model covers text in the range U+0000 to U+00FF. In that range the characters removed
  by \<^verbatim>\<open>String.prototype.trim\<close> are TAB, LF, VT, FF, CR, SPACE and NBSP, the class
  \<^verbatim>\<open>\d\<close> is \<^verbatim>\<open>[0-9]\<close>, and the word characters of \<^verbatim>\<open>\b\<close> are
  \<^verbatim>\<open>[A-Za-z0-9_]\<close>.
\<close>

definition isWhiteSpace :: "char \<Rightarrow> bool" where
  "isWhiteSpace c = (of_char c \<in> {9, 10, 11, 12, 13, 32, 160 :: nat})"

definition isDigit :: "char \<Rightarrow> bool" where
  "isDigit c = (c \<in> set ''0123456789'')"

definition isWordChar :: "char \<Rightarrow> bool" where
  "isWordChar c =
     (c \<in> set ''ABCDEFGHIJKLMNOPQRSTUVWXYZabcdefghijklmnopqrstuvwxyz0123456789_'')"

definition trim :: "string \<Rightarrow> string" where
  "trim s = rev (dropWhile isWhiteSpace (rev (dropWhile isWhiteSpace s)))"

text \<open>The test \<^verbatim>\<open>/^\d+$/.test(s)\<close>: a nonempty string of decimal digits.\<close>

definition allDigits :: "string \<Rightarrow> bool" where
  "allDigits s = (s \<noteq> [] \<and> list_all isDigit s)"

definition digitVal :: "char \<Rightarrow> nat" where
  "digitVal c = of_char c - 48"

definition digitChar :: "nat \<Rightarrow> char" where
  "digitChar d = ''0123456789'' ! d"

text \<open>The mathematical value of a string of decimal digits, most significant first.\<close>

definition digitsValue :: "string \<Rightarrow> nat" where
  "digitsValue s = foldl (\<lambda>acc c. 10 * acc + digitVal c) 0 s"

text \<open>The decimal numeral of a natural number, as \<^verbatim>\<open>String(n)\<close> prints an integer.\<close>

fun decimal :: "nat \<Rightarrow> string" where
  "decimal n = (if n < 10 then [digitChar n] else decimal (n div 10) @ [digitChar (n mod 10)])"

declare decimal.simps [simp del]

text \<open>
  \<^verbatim>\<open>String(Number(s))\<close> for a string \<open>s\<close> of decimal digits. \<^verbatim>\<open>Number\<close> rounds to
  a double: below \<open>2^53 = 9007199254740992\<close> every integer is a double and prints as
  its decimal numeral.
  From \<open>2^53\<close> on the result is what the runtime's rounding and printing make of it
  (ECMAScript leaves both partly to the implementation; from \<open>10^21\<close> on the output is
  in exponent notation); that part of the runtime is the parameter \<open>big\<close>, from the
  value to the printed string.
\<close>

definition normNumber :: "(nat \<Rightarrow> string) \<Rightarrow> string \<Rightarrow> string" where
  "normNumber big s =
     (let n = digitsValue s in if n < 9007199254740992 then decimal n else big n)"

text \<open>Leading zeros stripped, keeping one digit: the normal form the specification names.\<close>

definition stripZeros :: "string \<Rightarrow> string" where
  "stripZeros s =
     (let r = dropWhile (\<lambda>c. c = CHR ''0'') s in if r = [] then ''0'' else r)"

section \<open>Favourites loader\<close>

record favourite =
  name :: string
  number :: string

text \<open>
  \<^verbatim>\<open>raw.split(/\r?\n/)\<close>: the text is cut at every LF, and a CR right before the LF
  belongs to the separator. A CR elsewhere stays in its line.
\<close>

fun splitLines :: "string \<Rightarrow> string list" where
  "splitLines [] = [[]]"
| "splitLines [c] = (if c = CHR 0x0A then [[], []] else [[c]])"
| "splitLines (c # d # cs) =
     (if c = CHR 0x0A then [] # splitLines (d # cs)
      else if c = CHR 0x0D \<and> d = CHR 0x0A then [] # splitLines cs
      else (case splitLines (d # cs) of
              [] \<Rightarrow> [[c]]
            | l # ls \<Rightarrow> (c # l) # ls))"

text \<open>\<^verbatim>\<open>line.indexOf('=')\<close>, with \<open>None\<close> for \<open>-1\<close>.\<close>

fun indexOf :: "char \<Rightarrow> string \<Rightarrow> nat option" where
  "indexOf x [] = None"
| "indexOf x (c # cs) =
     (if c = x then Some 0 else map_option Suc (indexOf x cs))"

text \<open>
  The body of the loop of \<^verbatim>\<open>loadFavourites\<close> for one raw line, up to the
  \<^verbatim>\<open>push\<close>: \<open>None\<close> is a \<^verbatim>\<open>continue\<close>, \<open>Some f\<close> the favourite pushed.
\<close>

definition parseLine :: "(nat \<Rightarrow> string) \<Rightarrow> string \<Rightarrow> favourite option" where
  "parseLine big lineRaw =
     (let line = trim lineRaw in
      if line = [] \<or> hd line = CHR ''#'' then None
      else (case indexOf CHR ''='' line of
              None \<Rightarrow> None
            | Some eq \<Rightarrow>
                if eq < 1 then None
                else (let nm = trim (take eq line);
                          num = trim (drop (eq + 1) line)
                      in if nm = [] then None
                         else if \<not> allDigits num then None
                         else Some \<lparr>name = nm, number = normNumber big num\<rparr>)))"

text \<open>
  The \<^verbatim>\<open>for\<close> loop over the lines, with \<open>out\<close> the list collected so far. The
  \<^verbatim>\<open>break\<close> is tested after the \<^verbatim>\<open>push\<close>, against \<open>max\<close>, a finite number.
\<close>

fun loadLoop :: "(nat \<Rightarrow> string) \<Rightarrow> real \<Rightarrow> string list \<Rightarrow> favourite list \<Rightarrow> favourite list" where
  "loadLoop big mx [] out = out"
| "loadLoop big mx (l # ls) out =
     (case parseLine big l of
        None \<Rightarrow> loadLoop big mx ls out
      | Some f \<Rightarrow>
          (let out' = out @ [f] in
           if real (length out') \<ge> mx then out' else loadLoop big mx ls out'))"

datatype log_msg =
    LogLoadFailed
  | LogSetPower bool
  | LogPollError
  | LogTuning string int
  | LogNoEntries string
  | LogMapLoaded nat
  | LogNoUri string
  | LogSetPlayContent string
  | LogLoadedFavourites nat

text \<open>
  \<^verbatim>\<open>loadFavourites\<close>. \<open>maxFavourites\<close> is the configured value when it is a finite
  number (\<open>None\<close> otherwise, then 30 is used); \<open>file\<close> is what \<^verbatim>\<open>readFileSync\<close>
  gives: the text, or \<open>None\<close> when it throws. The result is the list returned and the
  messages logged.
\<close>

definition loadFavourites ::
  "(nat \<Rightarrow> string) \<Rightarrow> real option \<Rightarrow> string option \<Rightarrow> favourite list \<times> log_msg list" where
  "loadFavourites big maxFavourites file =
     (let mx = (case maxFavourites of Some m \<Rightarrow> m | None \<Rightarrow> 30) in
      case file of
        None \<Rightarrow> ([], [LogLoadFailed])
      | Some raw \<Rightarrow> (loadLoop big mx (splitLines raw) [], []))"

section \<open>Channel resolver: deriving a channel number\<close>

text \<open>
  An entry of the content list as the device sends it: the three fields the code reads,
  each a string or absent (\<open>None\<close> stands for a missing, \<^verbatim>\<open>null\<close> or
  \<^verbatim>\<open>undefined\<close> field). An entry of the list that is itself \<^verbatim>\<open>null\<close> (or has
  no fields at all) is \<open>None\<close> in the list.
\<close>

record contentItem =
  uri :: "string option"
  title :: "string option"
  dispNum :: "string option"

text \<open>
  \<^verbatim>\<open>/^(\d{1,4})\b/\<close> on a string: the engine tries four digits, then three, two and
  one from the start, and accepts the first attempt that ends on a word boundary.
  At position \<open>k \<ge> 1\<close> there is a boundary when exactly one of the characters before
  and after it is a word character (the end of the string counts as none).
\<close>

definition wordBoundary :: "string \<Rightarrow> nat \<Rightarrow> bool" where
  "wordBoundary s k =
     (isWordChar (s ! (k - 1)) \<noteq> (k < length s \<and> isWordChar (s ! k)))"

definition titleAttempt :: "string \<Rightarrow> nat \<Rightarrow> bool" where
  "titleAttempt s k = (k \<le> length s \<and> list_all isDigit (take k s) \<and> wordBoundary s k)"

definition matchTitle :: "string \<Rightarrow> string option" where
  "matchTitle s =
     (if titleAttempt s 4 then Some (take 4 s)
      else if titleAttempt s 3 then Some (take 3 s)
      else if titleAttempt s 2 then Some (take 2 s)
      else if titleAttempt s 1 then Some (take 1 s)
      else None)"

text \<open>
  \<^verbatim>\<open>/(?:dispNum|channel|ch)=(\d+)/i\<close>: the leftmost position where one of the three
  keywords, compared without regard to ASCII case, stands before \<open>=\<close> and at least one
  digit; the capture is the whole run of digits.
\<close>

definition lowerAscii :: "char \<Rightarrow> char" where
  "lowerAscii c =
     (case map_of (zip ''ABCDEFGHIJKLMNOPQRSTUVWXYZ'' ''abcdefghijklmnopqrstuvwxyz'') c of
        Some l \<Rightarrow> l
      | None \<Rightarrow> c)"

definition keywordAt :: "string \<Rightarrow> string \<Rightarrow> string option" where
  "keywordAt kw s =
     (if length kw \<le> length s \<and> map lowerAscii (take (length kw) s) = kw
         \<and> takeWhile isDigit (drop (length kw) s) \<noteq> []
      then Some (takeWhile isDigit (drop (length kw) s))
      else None)"

definition uriKeywords :: "string list" where
  "uriKeywords = [''dispnum='', ''channel='', ''ch='']"

definition matchKeyAt :: "string \<Rightarrow> string option" where
  "matchKeyAt s =
     (case keywordAt (uriKeywords ! 0) s of
        Some d \<Rightarrow> Some d
      | None \<Rightarrow>
          (case keywordAt (uriKeywords ! 1) s of
             Some d \<Rightarrow> Some d
           | None \<Rightarrow> keywordAt (uriKeywords ! 2) s))"

fun matchUri :: "string \<Rightarrow> string option" where
  "matchUri [] = matchKeyAt []"
| "matchUri (c # cs) =
     (case matchKeyAt (c # cs) of
        Some d \<Rightarrow> Some d
      | None \<Rightarrow> matchUri cs)"

text \<open>
  The three tiers of the loop body in \<^verbatim>\<open>refreshChannelMap\<close>, for an entry whose
  \<^verbatim>\<open>uri\<close> is \<open>u\<close>. \<^verbatim>\<open>num\<close> is \<open>None\<close> for \<^verbatim>\<open>null\<close>; a string made by
  \<^verbatim>\<open>String(Number(...))\<close> is never empty, so \<^verbatim>\<open>!num\<close> is \<open>num = None\<close>.
\<close>

definition channelNumber :: "(nat \<Rightarrow> string) \<Rightarrow> contentItem \<Rightarrow> string \<Rightarrow> string option" where
  "channelNumber big item u =
     (let num1 = (case dispNum item of
                    None \<Rightarrow> None
                  | Some d \<Rightarrow> if d \<noteq> [] \<and> allDigits d then Some (normNumber big d) else None);
          num2 = (case title item of
                    None \<Rightarrow> num1
                  | Some t \<Rightarrow>
                      if num1 = None \<and> t \<noteq> []
                      then (case matchTitle (trim t) of
                              Some tm \<Rightarrow> Some (normNumber big tm)
                            | None \<Rightarrow> num1)
                      else num1);
          num3 = (if num2 = None
                  then (case matchUri u of
                          Some um \<Rightarrow> Some (normNumber big um)
                        | None \<Rightarrow> num2)
                  else num2)
      in num3)"

text \<open>The loop over the list, filling \<^verbatim>\<open>newMap\<close>; a later entry overwrites an earlier one.\<close>

fun addItems ::
  "(nat \<Rightarrow> string) \<Rightarrow> contentItem option list \<Rightarrow> (string \<rightharpoonup> string) \<Rightarrow> (string \<rightharpoonup> string)" where
  "addItems big [] m = m"
| "addItems big (it # its) m =
     addItems big its
       (case it of
          None \<Rightarrow> m
        | Some item \<Rightarrow>
            (case uri item of
               None \<Rightarrow> m
             | Some u \<Rightarrow>
                 if u = [] then m
                 else (case channelNumber big item u of
                         None \<Rightarrow> m
                       | Some n \<Rightarrow> m(n \<mapsto> u))))"

definition buildChannelMap :: "(nat \<Rightarrow> string) \<Rightarrow> contentItem option list \<Rightarrow> (string \<rightharpoonup> string)" where
  "buildChannelMap big items = addItems big items Map.empty"

text \<open>
  \<^verbatim>\<open>newMap.size\<close>, the number of distinct keys the loop has set: \<open>setKeys\<close> are the
  keys of the calls of \<^verbatim>\<open>newMap.set\<close>, in order.
\<close>

fun setKeys :: "(nat \<Rightarrow> string) \<Rightarrow> contentItem option list \<Rightarrow> string list" where
  "setKeys big [] = []"
| "setKeys big (it # its) =
     (case it of
        None \<Rightarrow> []
      | Some item \<Rightarrow>
          (case uri item of
             None \<Rightarrow> []
           | Some u \<Rightarrow>
               if u = [] then []
               else (case channelNumber big item u of
                       None \<Rightarrow> []
                     | Some n \<Rightarrow> [n])))
     @ setKeys big its"

definition channelMapSize :: "(nat \<Rightarrow> string) \<Rightarrow> contentItem option list \<Rightarrow> nat" where
  "channelMapSize big items = length (remdups (setKeys big items))"

section \<open>Accessory services of the host\<close>

text \<open>
  The services of a HomeKit accessory, as the plugin uses them through the host's
  library: a service has a type (its UUID), an optional subtype, a display name, its
  characteristics and the services linked to it. Within one accessory the pair of type
  and subtype identifies a service, so references to a service, the links of a service
  among them, are that pair. The operations are those of the library the plugin calls,
  with the behaviour of the library that the plugin relies on or runs into.
\<close>

datatype service_type = AccessoryInformation | Television | InputSource | OtherService nat

datatype characteristic =
    ConfiguredName | Name | SleepDiscoveryMode | Identifier | IsConfigured
  | CurrentVisibilityState | InputSourceType

datatype cvalue = CString string | CNumber int

type_synonym service_key = "service_type \<times> string option"

record service =
  svcType :: service_type
  svcSubtype :: "string option"
  displayName :: string
  characteristics :: "characteristic \<rightharpoonup> cvalue"
  linkedServices :: "service_key list"

definition svcKey :: "service \<Rightarrow> service_key" where
  "svcKey s = (svcType s, svcSubtype s)"

text \<open>
  The value a characteristic takes when it is set: a string (the two names are the
  string characteristics here, with the library's length limit of 64) is cut to its
  first 64 characters; the numbers the plugin sets are within the ranges of their
  characteristics and are stored as given.
\<close>

definition validValue :: "cvalue \<Rightarrow> cvalue" where
  "validValue v = (case v of CString s \<Rightarrow> CString (take 64 s) | CNumber n \<Rightarrow> CNumber n)"

text \<open>A new service; its constructor sets the name characteristic to a display name that is not empty.\<close>

definition newService :: "service_type \<Rightarrow> string \<Rightarrow> string option \<Rightarrow> service" where
  "newService ty nm sub =
     \<lparr>svcType = ty, svcSubtype = sub, displayName = nm,
      characteristics = (if nm = [] then Map.empty else [Name \<mapsto> validValue (CString nm)]),
      linkedServices = []\<rparr>"

definition getService :: "service_type \<Rightarrow> service list \<Rightarrow> service option" where
  "getService ty svcs = find (\<lambda>s. svcType s = ty) svcs"

definition getServiceById :: "service_type \<Rightarrow> string \<Rightarrow> service list \<Rightarrow> service option" where
  "getServiceById ty sub svcs = find (\<lambda>s. svcType s = ty \<and> svcSubtype s = Some sub) svcs"

text \<open>
  \<^verbatim>\<open>accessory.addService\<close> throws, and adds nothing, when the accessory has a service of
  the same type and the new one has no subtype or the subtype of that service, and when
  the accessory holds 100 services already. The plugin does not catch what it throws.
\<close>

datatype build_error = DuplicateService | TooManyServices

definition addService :: "service \<Rightarrow> service list \<Rightarrow> build_error + service list" where
  "addService s svcs =
     (if list_ex (\<lambda>e. svcType e = svcType s \<and>
                       (svcSubtype s = None \<or> svcSubtype s = Some [] \<or> svcSubtype e = svcSubtype s))
           svcs
      then Inl DuplicateService
      else if 100 \<le> length svcs then Inl TooManyServices
      else Inr (svcs @ [s]))"

text \<open>
  \<^verbatim>\<open>accessory.removeService\<close> for each of the services \<open>ks\<close>: the services leave the
  accessory, and the services that stay lose their links to them.
\<close>

definition removeServices :: "service_key list \<Rightarrow> service list \<Rightarrow> service list" where
  "removeServices ks svcs =
     map (\<lambda>s. s\<lparr>linkedServices := filter (\<lambda>l. l \<notin> set ks) (linkedServices s)\<rparr>)
       (filter (\<lambda>s. svcKey s \<notin> set ks) svcs)"

definition setCharacteristic ::
  "service_key \<Rightarrow> characteristic \<Rightarrow> cvalue \<Rightarrow> service list \<Rightarrow> service list" where
  "setCharacteristic k c v svcs =
     map (\<lambda>s. if svcKey s = k then s\<lparr>characteristics := (characteristics s)(c \<mapsto> validValue v)\<rparr>
              else s) svcs"

text \<open>\<^verbatim>\<open>addLinkedService\<close> leaves a service that is linked already where it is.\<close>

definition addLinkedService :: "service_key \<Rightarrow> service_key \<Rightarrow> service list \<Rightarrow> service list" where
  "addLinkedService k l svcs =
     map (\<lambda>s. if svcKey s = k \<and> l \<notin> set (linkedServices s)
              then s\<lparr>linkedServices := linkedServices s @ [l]\<rparr> else s) svcs"

text \<open>
  \<^verbatim>\<open>for (const ls of linked) removeLinkedService(ls)\<close> walks the array it shortens:
  after the element at index \<open>i\<close> is removed the walk goes on at index \<open>i + 1\<close> of the
  shorter array, so every second element stays.
\<close>

fun removeWhileIterating :: "'a list \<Rightarrow> 'a list" where
  "removeWhileIterating [] = []"
| "removeWhileIterating [x] = []"
| "removeWhileIterating (x # y # xs) = y # removeWhileIterating xs"

definition clearLinkedServices :: "service_key \<Rightarrow> service list \<Rightarrow> service list" where
  "clearLinkedServices k svcs =
     map (\<lambda>s. if svcKey s = k then s\<lparr>linkedServices := removeWhileIterating (linkedServices s)\<rparr>
              else s) svcs"

section \<open>Device controller\<close>

datatype rpc_error = RequestError | HttpStatusError nat | JsonSyntaxError

text \<open>
  The four calls of the plugin; each fixes its endpoint, \<^verbatim>\<open>id\<close> and \<^verbatim>\<open>version\<close>
  (\<^verbatim>\<open>/sony/system/\<close> for the power calls, \<^verbatim>\<open>/sony/avContent/\<close> for the others).
\<close>

datatype rpc_call =
    GetPowerStatus
  | SetPowerStatus bool
  | GetContentList string
  | SetPlayContent string

text \<open>
  What a handler does to the outside: a request sent to the device, a value pushed to
  a HomeKit characteristic (\<^verbatim>\<open>updateValue\<close>), a service added to or removed from the
  accessory, a line logged.
\<close>

datatype event =
    Rpc rpc_call
  | ActiveUpdated bool
  | ActiveIdentifierUpdated int
  | ServiceAdded service_key
  | ServiceRemoved service_key
  | LogMsg log_msg

text \<open>
  The parsed body of a \<^verbatim>\<open>getPowerStatus\<close> answer, by the shape the code inspects:
  the body is \<^verbatim>\<open>null\<close>; it has no (truthy) \<^verbatim>\<open>result\<close>; \<^verbatim>\<open>result[0]\<close> is missing or
  falsy; \<^verbatim>\<open>result[0]\<close> has no \<^verbatim>\<open>status\<close>; or \<^verbatim>\<open>result[0].status\<close> is a string.
\<close>

datatype power_response =
    BodyNull
  | ResultMissing
  | ResultEmpty
  | StatusMissing
  | StatusValue string

datatype task = PollTask | RefreshTask

text \<open>The timers of the event loop that have been set and have neither fired nor been cleared.\<close>

record eventLoop =
  timeouts :: "(nat \<times> task \<times> int) list"
  intervals :: "(nat \<times> task \<times> int) list"
  nextTimer :: nat

definition setTimeout :: "task \<Rightarrow> int \<Rightarrow> eventLoop \<Rightarrow> nat \<times> eventLoop" where
  "setTimeout t ms lp =
     (nextTimer lp,
      lp\<lparr>timeouts := timeouts lp @ [(nextTimer lp, t, ms)], nextTimer := Suc (nextTimer lp)\<rparr>)"

definition setInterval :: "task \<Rightarrow> int \<Rightarrow> eventLoop \<Rightarrow> nat \<times> eventLoop" where
  "setInterval t ms lp =
     (nextTimer lp,
      lp\<lparr>intervals := intervals lp @ [(nextTimer lp, t, ms)], nextTimer := Suc (nextTimer lp)\<rparr>)"

text \<open>\<^verbatim>\<open>if (h) clearTimeout(h)\<close> for a handle field \<open>h\<close> (\<open>None\<close> is \<^verbatim>\<open>null\<close>).\<close>

definition clearTimeout :: "nat option \<Rightarrow> eventLoop \<Rightarrow> eventLoop" where
  "clearTimeout h lp =
     (case h of
        None \<Rightarrow> lp
      | Some i \<Rightarrow> lp\<lparr>timeouts := filter (\<lambda>(j, t, ms). j \<noteq> i) (timeouts lp)\<rparr>)"

definition clearInterval :: "nat option \<Rightarrow> eventLoop \<Rightarrow> eventLoop" where
  "clearInterval h lp =
     (case h of
        None \<Rightarrow> lp
      | Some i \<Rightarrow> lp\<lparr>intervals := filter (\<lambda>(j, t, ms). j \<noteq> i) (intervals lp)\<rparr>)"

text \<open>
  The fields of \<^verbatim>\<open>BraviaTvController\<close>. The connection parameters (\<^verbatim>\<open>ip\<close>,
  \<^verbatim>\<open>port\<close>, \<^verbatim>\<open>psk\<close>) are constants read by \<^verbatim>\<open>httpPost\<close> alone and are left out;
  \<open>services\<close> is \<^verbatim>\<open>accessory.services\<close>, \<open>tvService\<close> and \<open>inputServices\<close> refer
  to services in it.
\<close>

record controller =
  tvName :: string
  tvsource :: string
  debug :: bool
  pollIntervalMs :: int
  favourites :: "favourite list"
  services :: "service list"
  tvService :: service_key
  inputServices :: "service_key list"
  identifierToChannel :: "int \<rightharpoonup> string"
  powerState :: bool
  activeIdentifier :: int
  channelUriByNumber :: "string \<rightharpoonup> string"
  lastChannelMapMs :: int
  powerPollTimeout :: "nat option"
  channelMapTimeout :: "nat option"
  channelMapInterval :: "nat option"

subsection \<open>Capability rebuild\<close>

text \<open>
  \<^verbatim>\<open>Number(fav.number)\<close> for the number of a favourite. The favourites handed to the
  controller are those of \<open>loadFavourites\<close>: a string of digits has its value (a value
  from \<open>2^53\<close> on is rounded, and stays above 999); any other string the loader can
  store is the print of a number from \<open>10^21\<close> on. \<open>None\<close> is such a number, beyond
  every identifier.
\<close>

definition favIdentifier :: "string \<Rightarrow> int option" where
  "favIdentifier s = (if allDigits s then Some (int (digitsValue s)) else None)"

text \<open>The subtype of the input of a favourite: \<open>fav:\<close> and its number.\<close>

definition favSubtype :: "string \<Rightarrow> string" where
  "favSubtype n = ''fav:'' @ n"

text \<open>The six characteristics that the loop sets on the input of a favourite.\<close>

definition configureInput :: "service_key \<Rightarrow> int \<Rightarrow> string \<Rightarrow> service list \<Rightarrow> service list" where
  "configureInput k identifier nm svcs =
     setCharacteristic k InputSourceType (CNumber 2)
    (setCharacteristic k CurrentVisibilityState (CNumber 0)
    (setCharacteristic k IsConfigured (CNumber 1)
    (setCharacteristic k Name (CString nm)
    (setCharacteristic k ConfiguredName (CString nm)
    (setCharacteristic k Identifier (CNumber identifier) svcs)))))"

text \<open>
  The body of the loop over the favourites in \<^verbatim>\<open>buildServices\<close>, on the services of
  the accessory, the inputs and the table built so far, and what has happened to the
  accessory. \<open>Inl\<close> is what \<^verbatim>\<open>addService\<close> throws.
\<close>

definition addFavourite ::
  "service_key \<Rightarrow> favourite \<Rightarrow>
   service list \<times> service_key list \<times> (int \<rightharpoonup> string) \<times> event list \<Rightarrow>
   build_error + service list \<times> service_key list \<times> (int \<rightharpoonup> string) \<times> event list" where
  "addFavourite tv fav acc =
     (case acc of (svcs, inputs, table, evs) \<Rightarrow>
        (case favIdentifier (number fav) of
           None \<Rightarrow> Inr acc
         | Some identifier \<Rightarrow>
             if identifier \<le> 0 \<or> identifier > 999 then Inr acc
             else
               (let subtype = favSubtype (number fav);
                    k = (InputSource, Some subtype);
                    found = getServiceById InputSource subtype svcs
                in (case (if found = None
                          then addService (newService InputSource (name fav) (Some subtype)) svcs
                          else Inr svcs) of
                      Inl e \<Rightarrow> Inl e
                    | Inr svcs1 \<Rightarrow>
                        (let evs1 = (if found = None then evs @ [ServiceAdded k] else evs);
                             svcs2 = configureInput k identifier (name fav) svcs1;
                             svcs3 = addLinkedService tv k svcs2
                         in Inr (svcs3, inputs @ [k], table(identifier \<mapsto> number fav), evs1))))))"

text \<open>The loop: it ends at the first favourite whose service cannot be added.\<close>

fun addFavourites ::
  "service_key \<Rightarrow> favourite list \<Rightarrow>
   service list \<times> service_key list \<times> (int \<rightharpoonup> string) \<times> event list \<Rightarrow>
   build_error + service list \<times> service_key list \<times> (int \<rightharpoonup> string) \<times> event list" where
  "addFavourites tv [] acc = Inr acc"
| "addFavourites tv (fav # favs) acc =
     (case addFavourite tv fav acc of
        Inl e \<Rightarrow> Inl e
      | Inr acc1 \<Rightarrow> addFavourites tv favs acc1)"

text \<open>
  \<^verbatim>\<open>buildServices\<close>: every service but the accessory information is removed, the
  Television service is looked up or added and set up, its linked services are
  cleared, and the favourites are walked. The result is the controller and what
  happened to the accessory, or what \<^verbatim>\<open>addService\<close> has thrown: the method has no
  handler for it, and neither has the constructor that calls it.
\<close>

definition buildServices :: "controller \<Rightarrow> build_error + controller \<times> event list" where
  "buildServices st =
     (let removed = filter (\<lambda>s. svcType s \<noteq> AccessoryInformation) (services st);
          svcs0 = removeServices (map svcKey removed) (services st);
          evs0 = map (\<lambda>s. ServiceRemoved (svcKey s)) removed;
          found = getService Television svcs0
      in (case (if found = None then addService (newService Television (tvName st) None) svcs0
                else Inr svcs0) of
            Inl e \<Rightarrow> Inl e
          | Inr svcs1 \<Rightarrow>
              (let tv = (case found of
                           Some s \<Rightarrow> svcKey s
                         | None \<Rightarrow> (Television, None));
                   evs1 = (if found = None then evs0 @ [ServiceAdded tv] else evs0);
                   svcs2 = setCharacteristic tv SleepDiscoveryMode (CNumber 1)
                          (setCharacteristic tv Name (CString (tvName st))
                          (setCharacteristic tv ConfiguredName (CString (tvName st)) svcs1));
                   svcs3 = clearLinkedServices tv svcs2
               in (case addFavourites tv (favourites st) (svcs3, [], Map.empty, evs1) of
                     Inl e \<Rightarrow> Inl e
                   | Inr (svcs4, inputs, table, evs2) \<Rightarrow>
                       (let evs3 = (if debug st
                                    then evs2 @ [LogMsg (LogLoadedFavourites (length inputs))]
                                    else evs2)
                        in Inr (st\<lparr>services := svcs4, tvService := tv, inputServices := inputs,
                                    identifierToChannel := table\<rparr>, evs3))))))"

subsection \<open>Power\<close>

text \<open>
  \<^verbatim>\<open>getPowerStatus\<close> after its call has settled: \<open>Inl\<close> when \<^verbatim>\<open>rpc\<close> rejects,
  else the status string. Reading \<^verbatim>\<open>resp.result\<close> off a \<^verbatim>\<open>null\<close> body throws
  inside the \<^verbatim>\<open>try\<close>, which returns \<^verbatim>\<open>'unknown'\<close> as the other statusless shapes do.
\<close>

definition getPowerStatus :: "rpc_error + power_response \<Rightarrow> rpc_error + string" where
  "getPowerStatus outcome =
     (case outcome of
        Inl e \<Rightarrow> Inl e
      | Inr resp \<Rightarrow>
          (case resp of
             StatusValue s \<Rightarrow> if s \<noteq> [] then Inr s else Inr ''unknown''
           | _ \<Rightarrow> Inr ''unknown''))"

text \<open>
  One tick of \<^verbatim>\<open>poll\<close> in two parts: up to the \<^verbatim>\<open>await\<close> (the request is sent),
  and from the settled call to the end of the \<^verbatim>\<open>finally\<close> block.
\<close>

definition poll_begin :: "controller \<Rightarrow> controller \<times> event list" where
  "poll_begin st = (st, [Rpc GetPowerStatus])"

definition poll_resume ::
  "rpc_error + power_response \<Rightarrow> controller \<times> eventLoop \<Rightarrow> (controller \<times> eventLoop) \<times> event list" where
  "poll_resume outcome w =
     (case w of (st, lp) \<Rightarrow>
        (let (st1, evs) =
               (case getPowerStatus outcome of
                  Inl e \<Rightarrow> (st, if debug st then [LogMsg LogPollError] else [])
                | Inr status \<Rightarrow>
                    (let isOn = (status = ''active'') in
                     if powerState st \<noteq> isOn
                     then (st\<lparr>powerState := isOn\<rparr>, [ActiveUpdated isOn])
                     else (st, [])));
             (h, lp1) = setTimeout PollTask (pollIntervalMs st1) lp
         in ((st1\<lparr>powerPollTimeout := Some h\<rparr>, lp1), evs)))"

text \<open>\<^verbatim>\<open>setPower(on)\<close>, with the settled \<^verbatim>\<open>setPowerStatus\<close> call; \<open>Inl\<close> is the rejection.\<close>

definition setPower ::
  "bool \<Rightarrow> rpc_error + unit \<Rightarrow> controller \<Rightarrow> controller \<times> event list \<times> (rpc_error + unit)" where
  "setPower on outcome st =
     (let evs = (if debug st then [LogMsg (LogSetPower on)] else []) @ [Rpc (SetPowerStatus on)] in
      case outcome of
        Inl e \<Rightarrow> (st, evs, Inl e)
      | Inr r \<Rightarrow> (st\<lparr>powerState := on\<rparr>, evs @ [ActiveUpdated on], Inr ()))"

subsection \<open>Channel map refresh and tuning\<close>

text \<open>
  \<^verbatim>\<open>refreshChannelMap\<close> in two parts. \<open>now\<close> is \<^verbatim>\<open>Date.now()\<close>. The first part
  runs to the \<^verbatim>\<open>await\<close> and says whether a request was sent; the second takes the
  settled call. The answer of the device is its list \<^verbatim>\<open>result[0]\<close>, with \<open>[]\<close> for
  every body in which that is missing, falsy, not an array or empty.
\<close>

definition refreshChannelMap_begin :: "int \<Rightarrow> controller \<Rightarrow> controller \<times> rpc_call option" where
  "refreshChannelMap_begin now st =
     (if now - lastChannelMapMs st < 60 * 1000 then (st, None)
      else (st\<lparr>lastChannelMapMs := now\<rparr>, Some (GetContentList (tvsource st))))"

definition refreshChannelMap_resume ::
  "(nat \<Rightarrow> string) \<Rightarrow> rpc_error + contentItem option list \<Rightarrow> controller \<Rightarrow>
   controller \<times> event list \<times> (rpc_error + unit)" where
  "refreshChannelMap_resume big outcome st =
     (case outcome of
        Inl e \<Rightarrow> (st, [], Inl e)
      | Inr items \<Rightarrow>
          if items = []
          then (st, if debug st then [LogMsg (LogNoEntries (tvsource st))] else [], Inr ())
          else (let newMap = buildChannelMap big items in
                (st\<lparr>channelUriByNumber := newMap\<rparr>,
                 if debug st then [LogMsg (LogMapLoaded (channelMapSize big items))] else [],
                 Inr ())))"

definition refreshChannelMap ::
  "(nat \<Rightarrow> string) \<Rightarrow> int \<Rightarrow> rpc_error + contentItem option list \<Rightarrow> controller \<Rightarrow>
   controller \<times> event list \<times> (rpc_error + unit)" where
  "refreshChannelMap big now outcome st =
     (case refreshChannelMap_begin now st of
        (st1, None) \<Rightarrow> (st1, [], Inr ())
      | (st1, Some call) \<Rightarrow>
          (case refreshChannelMap_resume big outcome st1 of
             (st2, evs, r) \<Rightarrow> (st2, Rpc call # evs, r)))"

text \<open>
  \<^verbatim>\<open>tuneChannel\<close>: the refresh (its rejection swallowed), the lookup, and the
  \<^verbatim>\<open>setPlayContent\<close> call, with \<open>played\<close> its settled outcome.
\<close>

definition tuneChannel ::
  "(nat \<Rightarrow> string) \<Rightarrow> string \<Rightarrow> int \<Rightarrow> rpc_error + contentItem option list \<Rightarrow> rpc_error + unit \<Rightarrow>
   controller \<Rightarrow> controller \<times> event list \<times> (rpc_error + unit)" where
  "tuneChannel big channelNo now listed played st =
     (let ch = normNumber big channelNo in
      case refreshChannelMap big now listed st of
        (st1, evs1, r) \<Rightarrow>
          (case channelUriByNumber st1 ch of
             None \<Rightarrow> (st1, evs1 @ [LogMsg (LogNoUri ch)], Inr ())
           | Some channelUri \<Rightarrow>
               if channelUri = [] then (st1, evs1 @ [LogMsg (LogNoUri ch)], Inr ())
               else (let evs2 = evs1
                            @ (if debug st1 then [LogMsg (LogSetPlayContent channelUri)] else [])
                            @ [Rpc (SetPlayContent channelUri)]
                     in case played of
                          Inl e \<Rightarrow> (st1, evs2, Inl e)
                        | Inr u \<Rightarrow> (st1, evs2, Inr ()))))"

text \<open>
  \<^verbatim>\<open>selectIdentifier\<close>. The identifier is the integer HomeKit sends, which
  \<^verbatim>\<open>Number(identifier) || 0\<close> leaves as it is.
\<close>

definition selectIdentifier ::
  "(nat \<Rightarrow> string) \<Rightarrow> int \<Rightarrow> int \<Rightarrow> rpc_error + contentItem option list \<Rightarrow> rpc_error + unit \<Rightarrow>
   controller \<Rightarrow> controller \<times> event list \<times> (rpc_error + unit)" where
  "selectIdentifier big identifier now listed played st =
     (let st1 = st\<lparr>activeIdentifier := identifier\<rparr>;
          evs = [ActiveIdentifierUpdated identifier]
      in case identifierToChannel st1 identifier of
           None \<Rightarrow> (st1, evs, Inr ())
         | Some channel \<Rightarrow>
             if channel = [] then (st1, evs, Inr ())
             else (case tuneChannel big channel now listed played st1 of
                     (st2, evs2, r) \<Rightarrow>
                       (st2,
                        evs @ (if debug st1 then [LogMsg (LogTuning channel identifier)] else []) @ evs2,
                        r)))"

subsection \<open>Construction, timers and shutdown\<close>

text \<open>
  The constructor: the fields, \<^verbatim>\<open>buildServices\<close>, the first tick of the poll up to
  its \<^verbatim>\<open>await\<close>, and the two refresh timers. \<open>src\<close> is \<^verbatim>\<open>tvCfg.tvsource\<close>, empty
  or absent for the default. When \<^verbatim>\<open>buildServices\<close> throws there is no controller, no
  poll and no timer.
\<close>

definition initialFields ::
  "string \<Rightarrow> string option \<Rightarrow> bool \<Rightarrow> int \<Rightarrow> favourite list \<Rightarrow> service list \<Rightarrow> controller" where
  "initialFields nm src dbg pollMs favs accessory =
     \<lparr>tvName = nm,
      tvsource = (case src of None \<Rightarrow> ''tv:dvbt'' | Some s \<Rightarrow> if s = [] then ''tv:dvbt'' else s),
      debug = dbg, pollIntervalMs = pollMs, favourites = favs,
      services = accessory, tvService = (Television, None), inputServices = [],
      identifierToChannel = Map.empty, powerState = False, activeIdentifier = 0,
      channelUriByNumber = Map.empty, lastChannelMapMs = 0,
      powerPollTimeout = None, channelMapTimeout = None, channelMapInterval = None\<rparr>"

definition construct ::
  "string \<Rightarrow> string option \<Rightarrow> bool \<Rightarrow> int \<Rightarrow> favourite list \<Rightarrow> service list \<Rightarrow> eventLoop \<Rightarrow>
   build_error + (controller \<times> eventLoop) \<times> event list" where
  "construct nm src dbg pollMs favs accessory lp =
     (case buildServices (initialFields nm src dbg pollMs favs accessory) of
        Inl e \<Rightarrow> Inl e
      | Inr (st1, evs1) \<Rightarrow>
          (let (st2, evs2) = poll_begin st1;
               (h1, lp1) = setTimeout RefreshTask 2000 lp;
               (h2, lp2) = setInterval RefreshTask (6 * 60 * 60 * 1000) lp1
           in Inr ((st2\<lparr>channelMapTimeout := Some h1, channelMapInterval := Some h2\<rparr>, lp2),
                   evs1 @ evs2)))"

text \<open>The handler of the host's \<^verbatim>\<open>shutdown\<close> event.\<close>

definition shutdown :: "controller \<times> eventLoop \<Rightarrow> controller \<times> eventLoop" where
  "shutdown w =
     (case w of (st, lp) \<Rightarrow>
        (st, clearInterval (channelMapInterval st)
               (clearTimeout (channelMapTimeout st)
                 (clearTimeout (powerPollTimeout st) lp))))"

text \<open>
  The event loop runs a timeout that is due: the timer leaves the pending ones and
  its callback starts. For the poll timer that is the first part of a tick; \<open>None\<close>
  when no such timer is pending.
\<close>

definition firePollTimeout ::
  "nat \<Rightarrow> controller \<times> eventLoop \<Rightarrow> ((controller \<times> eventLoop) \<times> event list) option" where
  "firePollTimeout i w =
     (case w of (st, lp) \<Rightarrow>
        (if list_ex (\<lambda>(j, t, ms). j = i \<and> t = PollTask) (timeouts lp)
         then (let lp1 = lp\<lparr>timeouts := filter (\<lambda>(j, t, ms). j \<noteq> i) (timeouts lp)\<rparr>;
                   (st1, evs) = poll_begin st
               in Some ((st1, lp1), evs))
         else None))"

text \<open>
  Consecutive ticks of the poll, starting with a tick whose call is in flight: the call
  settles, the timer the tick has set fires, the next call settles, and so on, one
  outcome for each tick. \<open>None\<close> when the timer of a tick is not pending any more.
\<close>

fun pollRun ::
  "(rpc_error + power_response) list \<Rightarrow> controller \<times> eventLoop \<Rightarrow>
   ((controller \<times> eventLoop) \<times> event list) option" where
  "pollRun [] w = Some (w, [])"
| "pollRun [outcome] w = Some (poll_resume outcome w)"
| "pollRun (outcome # next # rest) w =
     (case poll_resume outcome w of
        (w1, evs1) \<Rightarrow>
          (case powerPollTimeout (fst w1) of
             None \<Rightarrow> None
           | Some h \<Rightarrow>
               (case firePollTimeout h w1 of
                  None \<Rightarrow> None
                | Some (w2, evs2) \<Rightarrow>
                    (case pollRun (next # rest) w2 of
                       None \<Rightarrow> None
                     | Some (w3, evs3) \<Rightarrow> Some (w3, evs1 @ evs2 @ evs3)))))"

text \<open>The change notifications among events, and the requests sent.\<close>

definition notifications :: "event list \<Rightarrow> bool list" where
  "notifications evs = concat (map (\<lambda>e. case e of ActiveUpdated b \<Rightarrow> [b] | _ \<Rightarrow> []) evs)"

definition rpcCalls :: "event list \<Rightarrow> rpc_call list" where
  "rpcCalls evs = concat (map (\<lambda>e. case e of Rpc c \<Rightarrow> [c] | _ \<Rightarrow> []) evs)"

definition servicesAdded :: "event list \<Rightarrow> service_key list" where
  "servicesAdded evs = concat (map (\<lambda>e. case e of ServiceAdded k \<Rightarrow> [k] | _ \<Rightarrow> []) evs)"

definition servicesRemoved :: "event list \<Rightarrow> service_key list" where
  "servicesRemoved evs = concat (map (\<lambda>e. case e of ServiceRemoved k \<Rightarrow> [k] | _ \<Rightarrow> []) evs)"

section \<open>The specification's wording, for comparison\<close>

text \<open>
  The specification's throttle, in its words: a refresh is a no-op if fewer than 60
  seconds have elapsed since the last completed refresh. \<open>completed\<close> is the time the
  last refresh completed, \<open>None\<close> when none has.
\<close>

definition spec_throttled :: "int option \<Rightarrow> int \<Rightarrow> bool" where
  "spec_throttled completed now =
     (case completed of None \<Rightarrow> False | Some t \<Rightarrow> now - t < 60 * 1000)"

text \<open>
  The specification's second tier, in its words: the leading run of 1 to 4 digits at
  the start of the title.
\<close>

definition spec_titleNumber :: "string \<Rightarrow> string option" where
  "spec_titleNumber t =
     (let run = takeWhile isDigit t in
      if 1 \<le> length run \<and> length run \<le> 4 then Some run else None)"

text \<open>
  The specification's throttle over a run of the resolver. A run is a sequence of calls
  of \<^verbatim>\<open>refreshChannelMap\<close> and of settled requests, each with its time; the run
  of the code is kept together with the time the last refresh completed (a request
  answered without error) and the requests sent.
\<close>

datatype refresh_step = Call int | Settle int "rpc_error + contentItem option list"

record refreshRun =
  ctl :: controller
  inFlight :: nat
  completedAt :: "int option"
  sent :: "(int \<times> rpc_call) list"

fun refreshStep :: "(nat \<Rightarrow> string) \<Rightarrow> refresh_step \<Rightarrow> refreshRun \<Rightarrow> refreshRun" where
  "refreshStep big (Call now) r =
     (case refreshChannelMap_begin now (ctl r) of
        (st, None) \<Rightarrow> r\<lparr>ctl := st\<rparr>
      | (st, Some c) \<Rightarrow> r\<lparr>ctl := st, inFlight := Suc (inFlight r), sent := sent r @ [(now, c)]\<rparr>)"
| "refreshStep big (Settle t outcome) r =
     (if inFlight r = 0 then r
      else (case refreshChannelMap_resume big outcome (ctl r) of
              (st, evs, res) \<Rightarrow>
                r\<lparr>ctl := st, inFlight := inFlight r - 1,
                  completedAt := (case res of Inl e \<Rightarrow> completedAt r | Inr u \<Rightarrow> Some t)\<rparr>))"

definition runRefresh :: "(nat \<Rightarrow> string) \<Rightarrow> refresh_step list \<Rightarrow> controller \<Rightarrow> refreshRun" where
  "runRefresh big steps st =
     foldl (\<lambda>r s. refreshStep big s r)
       \<lparr>ctl = st, inFlight = 0, completedAt = None, sent = []\<rparr> steps"

text \<open>
  The claim of the specification for a call at time \<open>now\<close> after a run: the call sends
  no request exactly when fewer than 60 seconds have elapsed since the last completed
  refresh.
\<close>

definition spec_refresh_claim ::
  "(nat \<Rightarrow> string) \<Rightarrow> refresh_step list \<Rightarrow> int \<Rightarrow> controller \<Rightarrow> bool" where
  "spec_refresh_claim big steps now st =
     (let r = runRefresh big steps st in
      (snd (refreshChannelMap_begin now (ctl r)) = None) = spec_throttled (completedAt r) now)"

section \<open>Example inputs\<close>

text \<open>The starter file that \<^verbatim>\<open>ensureFavouritesFile\<close> writes.\<close>

definition starter :: string where
  "starter = ''# Format: Name=Number\<newline>BBC One=1\<newline>BBC Two=2\<newline>ITV1=3\<newline>Channel 4=4\<newline>Channel 5=5\<newline>BBC News=231\<newline>ITV2=6\<newline>ITV3=10\<newline>Film4=14\<newline>Dave=19\<newline>5USA-21\<newline>''"

text \<open>A runtime print for the examples, none of which has a number from \<open>2^53\<close> on.\<close>

definition noBig :: "nat \<Rightarrow> string" where
  "noBig n = []"

definition threeFavourites :: "favourite list" where
  "threeFavourites =
     [\<lparr>name = ''BBC One'', number = ''1''\<rparr>, \<lparr>name = ''BBC Two'', number = ''2''\<rparr>,
      \<lparr>name = ''ITV1'', number = ''3''\<rparr>]"

text \<open>
  A controller as the constructor leaves it, for a new accessory that has its
  information service only: the first poll is in flight and the two refresh timers
  are set. (The constructor does not throw here; the other branch is there for the
  type alone.)
\<close>

definition started :: "controller \<times> eventLoop" where
  "started =
     (case construct ''TV'' None False 5000 threeFavourites
             [newService AccessoryInformation ''TV'' None]
             \<lparr>timeouts = [], intervals = [], nextTimer = 0\<rparr> of
        Inr r \<Rightarrow> fst r
      | Inl e \<Rightarrow>
          (initialFields ''TV'' None False 5000 threeFavourites
             [newService AccessoryInformation ''TV'' None],
           \<lparr>timeouts = [], intervals = [], nextTimer = 0\<rparr>))"

section \<open>Verification: power\<close>

lemma notifications_append: "notifications (xs @ ys) = notifications xs @ notifications ys"
  by (simp add: notifications_def)

lemma rpcCalls_append: "rpcCalls (xs @ ys) = rpcCalls xs @ rpcCalls ys"
  by (simp add: rpcCalls_def)

lemma getPowerStatus_success: "\<exists>status. getPowerStatus (Inr resp) = Inr status"
  by (cases resp) (simp_all add: getPowerStatus_def)

lemma poll_resume_success:
  assumes "getPowerStatus outcome = Inr status"
  shows "notifications (snd (poll_resume outcome (st, lp))) =
           (if powerState st \<noteq> (status = ''active'') then [status = ''active''] else [])"
    and "powerState (fst (fst (poll_resume outcome (st, lp)))) = (status = ''active'')"
    and "rpcCalls (snd (poll_resume outcome (st, lp))) = []"
  using assms
  by (auto simp: poll_resume_def setTimeout_def Let_def notifications_def rpcCalls_def
      split: prod.splits)

lemma poll_resume_failure:
  assumes "getPowerStatus outcome = Inl e"
  shows "notifications (snd (poll_resume outcome (st, lp))) = []"
    and "powerState (fst (fst (poll_resume outcome (st, lp)))) = powerState st"
  using assms
  by (auto simp: poll_resume_def setTimeout_def Let_def notifications_def split: prod.splits)

lemma poll_resume_timer:
  "powerPollTimeout (fst (fst (poll_resume outcome (st, lp)))) = Some (nextTimer lp)
   \<and> timeouts (snd (fst (poll_resume outcome (st, lp)))) =
       timeouts lp @ [(nextTimer lp, PollTask, pollIntervalMs st)]"
  by (cases "getPowerStatus outcome")
     (auto simp: poll_resume_def setTimeout_def Let_def split: prod.splits)

lemma firePollTimeout_pending:
  assumes "powerPollTimeout (fst w) = Some h" and "(h, PollTask, ms) \<in> set (timeouts (snd w))"
  shows "\<exists>lp. firePollTimeout h w = Some ((fst w, lp), [Rpc GetPowerStatus])"
  using assms
  by (cases w) (auto simp: firePollTimeout_def poll_begin_def list_ex_iff Let_def)

text \<open>
  Claim C8. \<^verbatim>\<open>setPower(on)\<close> sends exactly one \<^verbatim>\<open>setPowerStatus\<close> request, with
  the requested boolean. When the call succeeds the local power state becomes that
  boolean and the Active characteristic is updated; when it fails the error goes to the
  caller, nothing else is sent, and the controller is unchanged.
\<close>

theorem setPower_one_call:
  "rpcCalls (fst (snd (setPower on outcome st))) = [SetPowerStatus on]
   \<and> setPower on (Inr r) st =
       (st\<lparr>powerState := on\<rparr>,
        (if debug st then [LogMsg (LogSetPower on)] else [])
          @ [Rpc (SetPowerStatus on), ActiveUpdated on],
        Inr ())
   \<and> setPower on (Inl e) st =
       (st, (if debug st then [LogMsg (LogSetPower on)] else []) @ [Rpc (SetPowerStatus on)], Inl e)"
  by (cases outcome) (simp_all add: setPower_def rpcCalls_def)

theorem setPower_one_call_witness:
  "rpcCalls (fst (snd (setPower True (Inl RequestError) (fst started)))) = [SetPowerStatus True]
   \<and> setPower True (Inr ()) (fst started) =
       ((fst started)\<lparr>powerState := True\<rparr>,
        (if debug (fst started) then [LogMsg (LogSetPower True)] else [])
          @ [Rpc (SetPowerStatus True), ActiveUpdated True],
        Inr ())
   \<and> setPower True (Inl RequestError) (fst started) =
       (fst started,
        (if debug (fst started) then [LogMsg (LogSetPower True)] else [])
          @ [Rpc (SetPowerStatus True)],
        Inl RequestError)"
  by (rule setPower_one_call)

text \<open>
  Claim C10. When the \<^verbatim>\<open>getPowerStatus\<close> call succeeds but the parsed answer has no
  \<^verbatim>\<open>result[0].status\<close>, \<^verbatim>\<open>getPowerStatus\<close> returns \<^verbatim>\<open>'unknown'\<close>; the poll
  takes every status other than \<^verbatim>\<open>'active'\<close> for off, so such an answer turns a
  controller that is on to off and notifies, while a failed call leaves the power state
  as it is and notifies nothing.
\<close>

theorem statusless_answer_reads_off:
  "(resp \<in> {BodyNull, ResultMissing, ResultEmpty, StatusMissing, StatusValue []}
      \<longrightarrow> getPowerStatus (Inr resp) = Inr ''unknown'')
   \<and> (getPowerStatus outcome = Inr status \<and> status \<noteq> ''active''
      \<longrightarrow> powerState (fst (fst (poll_resume outcome (st, lp)))) = False)
   \<and> (resp \<in> {BodyNull, ResultMissing, ResultEmpty, StatusMissing, StatusValue []} \<and> powerState st
      \<longrightarrow> powerState (fst (fst (poll_resume (Inr resp) (st, lp)))) = False
          \<and> notifications (snd (poll_resume (Inr resp) (st, lp))) = [False])
   \<and> powerState (fst (fst (poll_resume (Inl e) (st, lp)))) = powerState st
   \<and> notifications (snd (poll_resume (Inl e) (st, lp))) = []"
proof -
  have u: "resp \<in> {BodyNull, ResultMissing, ResultEmpty, StatusMissing, StatusValue []}
      \<Longrightarrow> getPowerStatus (Inr resp) = Inr ''unknown''"
    by (auto simp: getPowerStatus_def)
  have f: "getPowerStatus (Inl e) = Inl e"
    by (simp add: getPowerStatus_def)
  have off: "getPowerStatus outcome = Inr status \<Longrightarrow> status \<noteq> ''active''
      \<Longrightarrow> powerState (fst (fst (poll_resume outcome (st, lp)))) = False"
    using poll_resume_success(2) [of outcome status st lp] by simp
  have flip: "resp \<in> {BodyNull, ResultMissing, ResultEmpty, StatusMissing, StatusValue []}
      \<Longrightarrow> powerState st
      \<Longrightarrow> powerState (fst (fst (poll_resume (Inr resp) (st, lp)))) = False
          \<and> notifications (snd (poll_resume (Inr resp) (st, lp))) = [False]"
    using poll_resume_success(1,2) [OF u, of st lp] by simp
  show ?thesis
    using u off flip poll_resume_failure [OF f, of st lp] by blast
qed

theorem statusless_answer_reads_off_witness:
  "getPowerStatus (Inr StatusMissing) = Inr ''unknown''
   \<and> powerState (fst (fst (poll_resume (Inr StatusMissing)
        ((fst started)\<lparr>powerState := True\<rparr>, snd started)))) = False
   \<and> notifications (snd (poll_resume (Inr StatusMissing)
        ((fst started)\<lparr>powerState := True\<rparr>, snd started))) = [False]
   \<and> powerState (fst (fst (poll_resume (Inl RequestError)
        ((fst started)\<lparr>powerState := True\<rparr>, snd started)))) = True
   \<and> notifications (snd (poll_resume (Inl RequestError)
        ((fst started)\<lparr>powerState := True\<rparr>, snd started))) = []"
proof -
  have m: "StatusMissing \<in> {BodyNull, ResultMissing, ResultEmpty, StatusMissing, StatusValue []}"
    by simp
  have p: "powerState ((fst started)\<lparr>powerState := True\<rparr>)"
    by simp
  from statusless_answer_reads_off [of StatusMissing "Inr StatusMissing" "''unknown''"
      "(fst started)\<lparr>powerState := True\<rparr>" "snd started" RequestError] m p
  show ?thesis by simp
qed

lemma pollRun_same:
  "\<exists>w' evs. pollRun (replicate (Suc n) (Inr resp)) (st, lp) = Some (w', evs)
     \<and> notifications evs =
         (if powerState st \<noteq> (getPowerStatus (Inr resp) = Inr ''active'')
          then [getPowerStatus (Inr resp) = Inr ''active''] else [])
     \<and> powerState (fst w') = (getPowerStatus (Inr resp) = Inr ''active'')
     \<and> rpcCalls evs = replicate n GetPowerStatus"
proof (induction n arbitrary: st lp)
  case 0
  obtain status where s: "getPowerStatus (Inr resp) = Inr status"
    using getPowerStatus_success by blast
  show ?case
    using poll_resume_success [OF s, of st lp] s
    by (cases "poll_resume (Inr resp) (st, lp)") auto
next
  case (Suc n)
  obtain status where s: "getPowerStatus (Inr resp) = Inr status"
    using getPowerStatus_success by blast
  obtain st1 lp1 evs1 where r: "poll_resume (Inr resp) (st, lp) = ((st1, lp1), evs1)"
    by (metis prod.exhaust)
  from poll_resume_success [OF s, of st lp] r
  have n1: "notifications evs1 =
      (if powerState st \<noteq> (status = ''active'') then [status = ''active''] else [])"
    and p1: "powerState st1 = (status = ''active'')" and c1: "rpcCalls evs1 = []"
    by simp_all
  from poll_resume_timer [of "Inr resp" st lp] r
  have h: "powerPollTimeout st1 = Some (nextTimer lp)"
    and t: "(nextTimer lp, PollTask, pollIntervalMs st) \<in> set (timeouts lp1)" by simp_all
  from firePollTimeout_pending [of "(st1, lp1)" "nextTimer lp" "pollIntervalMs st"] h t
  obtain lp2 where
    f: "firePollTimeout (nextTimer lp) (st1, lp1) = Some ((st1, lp2), [Rpc GetPowerStatus])"
    by auto
  from Suc.IH [of st1 lp2] obtain w' evs where
    run: "pollRun (replicate (Suc n) (Inr resp)) (st1, lp2) = Some (w', evs)"
    and n3: "notifications evs = []"
    and p3: "powerState (fst w') = (getPowerStatus (Inr resp) = Inr ''active'')"
    and c3: "rpcCalls evs = replicate n GetPowerStatus"
    using p1 s by auto
  have "pollRun (replicate (Suc (Suc n)) (Inr resp)) (st, lp) =
          Some (w', evs1 @ [Rpc GetPowerStatus] @ evs)"
    using r h f run by simp
  moreover have "notifications (evs1 @ [Rpc GetPowerStatus] @ evs) =
      (if powerState st \<noteq> (getPowerStatus (Inr resp) = Inr ''active'')
          then [getPowerStatus (Inr resp) = Inr ''active''] else [])"
    using n1 n3 s by (simp add: notifications_append) (simp add: notifications_def)
  moreover have "rpcCalls (evs1 @ [Rpc GetPowerStatus] @ evs) = replicate (Suc n) GetPowerStatus"
    using c1 c3 by (simp add: rpcCalls_append) (simp add: rpcCalls_def)
  ultimately show ?case using p3 by blast
qed

text \<open>
  Claim C6, as the code has it. A poll whose call succeeds notifies exactly when the
  boolean it reads differs from the power state, and then with that boolean. Three
  consecutive polls that return the same status notify at most once: once, at the first
  of them, when the status differs from the state before it, and not at all when it is
  the same (as for a television in standby at the first polls after the start).
\<close>

theorem poll_notifies_on_change:
  "(getPowerStatus outcome = Inr status \<longrightarrow>
      notifications (snd (poll_resume outcome (st, lp))) =
        (if powerState st \<noteq> (status = ''active'') then [status = ''active''] else []))
   \<and> (\<exists>w' evs. pollRun [Inr resp, Inr resp, Inr resp] (st, lp) = Some (w', evs)
         \<and> notifications evs =
             (if powerState st \<noteq> (getPowerStatus (Inr resp) = Inr ''active'')
              then [getPowerStatus (Inr resp) = Inr ''active''] else [])
         \<and> length (notifications evs) \<le> 1)"
proof -
  have three: "replicate (Suc 2) (Inr resp) = [Inr resp, Inr resp, Inr resp]"
    by (simp add: numeral_2_eq_2)
  from pollRun_same [of 2 resp st lp] obtain w' evs where
    "pollRun [Inr resp, Inr resp, Inr resp] (st, lp) = Some (w', evs)"
    and n: "notifications evs =
         (if powerState st \<noteq> (getPowerStatus (Inr resp) = Inr ''active'')
          then [getPowerStatus (Inr resp) = Inr ''active''] else [])"
    unfolding three by blast
  moreover from n have "length (notifications evs) \<le> 1" by simp
  ultimately have "\<exists>w' evs. pollRun [Inr resp, Inr resp, Inr resp] (st, lp) = Some (w', evs)
         \<and> notifications evs =
             (if powerState st \<noteq> (getPowerStatus (Inr resp) = Inr ''active'')
              then [getPowerStatus (Inr resp) = Inr ''active''] else [])
         \<and> length (notifications evs) \<le> 1"
    by blast
  then show ?thesis using poll_resume_success(1) [of outcome status st lp] by blast
qed

theorem poll_notifies_on_change_witness:
  "getPowerStatus (Inr (StatusValue ''active'')) = Inr ''active''
   \<and> notifications (snd (poll_resume (Inr (StatusValue ''active'')) (fst started, snd started))) =
        (if powerState (fst started) \<noteq> (''active'' = ''active'') then [''active'' = ''active''] else [])
   \<and> map_option (\<lambda>r. notifications (snd r))
        (pollRun [Inr (StatusValue ''active''), Inr (StatusValue ''active''),
                  Inr (StatusValue ''active'')] started) = Some [True]"
proof -
  have g: "getPowerStatus (Inr (StatusValue ''active'')) = Inr ''active''"
    by (simp add: getPowerStatus_def)
  have r: "map_option (\<lambda>r. notifications (snd r))
        (pollRun [Inr (StatusValue ''active''), Inr (StatusValue ''active''),
                  Inr (StatusValue ''active'')] started) = Some [True]"
    by code_simp
  from poll_notifies_on_change [of "Inr (StatusValue ''active'')" "''active''" "fst started"
      "snd started" "StatusValue ''active''"] g r
  show ?thesis by blast
qed

text \<open>
  The claim as stated fails: it has exactly one notification for three consecutive polls
  of the same status. For a television in standby when the controller starts, the first
  three polls notify nothing.
\<close>

theorem poll_standby_counterexample:
  "map_option (\<lambda>r. length (notifications (snd r)))
     (pollRun [Inr (StatusValue ''standby''), Inr (StatusValue ''standby''),
               Inr (StatusValue ''standby'')] started) = Some 0"
  by code_simp

section \<open>Verification: selecting an identifier\<close>

text \<open>
  Claim C7. For an identifier with no entry in \<^verbatim>\<open>identifierToChannel\<close>,
  \<^verbatim>\<open>selectIdentifier\<close> records it as the active identifier, updates the
  ActiveIdentifier characteristic and completes successfully; it sends no request, and
  no other field of the controller changes.
\<close>

theorem selectIdentifier_unmapped:
  "identifierToChannel st identifier = None \<Longrightarrow>
     selectIdentifier big identifier now listed played st =
       (st\<lparr>activeIdentifier := identifier\<rparr>, [ActiveIdentifierUpdated identifier], Inr ())"
  by (simp add: selectIdentifier_def)

theorem selectIdentifier_unmapped_witness:
  "selectIdentifier noBig 0 100000 (Inl RequestError) (Inl RequestError) (fst started) =
     ((fst started)\<lparr>activeIdentifier := 0\<rparr>, [ActiveIdentifierUpdated 0], Inr ())
   \<and> selectIdentifier noBig 1000 100000 (Inl RequestError) (Inl RequestError) (fst started) =
     ((fst started)\<lparr>activeIdentifier := 1000\<rparr>, [ActiveIdentifierUpdated 1000], Inr ())"
proof -
  have a: "identifierToChannel (fst started) 0 = None" by code_simp
  have b: "identifierToChannel (fst started) 1000 = None" by code_simp
  from selectIdentifier_unmapped [OF a] selectIdentifier_unmapped [OF b]
  show ?thesis by simp
qed

section \<open>Verification: channel map refresh\<close>

text \<open>The definitions that evaluate the resolver on a given entry.\<close>

lemmas string_eval =
  trim_def isWhiteSpace_def allDigits_def isDigit_def isWordChar_def normNumber_def
  digitsValue_def digitVal_def decimal.simps digitChar_def matchTitle_def titleAttempt_def
  wordBoundary_def lowerAscii_def keywordAt_def matchKeyAt_def uriKeywords_def
  channelNumber_def buildChannelMap_def noBig_def Let_def

text \<open>
  The map built from the entries of an answer: a number has the identifier string of
  the last entry that has a nonempty identifier string and yields that number, and has
  none when there is no such entry.
\<close>

lemma addItems_snoc:
  "addItems big (items @ [it]) m =
     (case it of
        None \<Rightarrow> addItems big items m
      | Some item \<Rightarrow>
          (case uri item of
             None \<Rightarrow> addItems big items m
           | Some u \<Rightarrow>
               if u = [] then addItems big items m
               else (case channelNumber big item u of
                       None \<Rightarrow> addItems big items m
                     | Some n \<Rightarrow> (addItems big items m)(n \<mapsto> u))))"
  by (induction items arbitrary: m) (simp_all split: option.splits)

lemma addItems_last:
  "(addItems big items Map.empty n = Some v) =
     (\<exists>pre item post. items = pre @ Some item # post
        \<and> uri item = Some v \<and> v \<noteq> [] \<and> channelNumber big item v = Some n
        \<and> (\<forall>later u. Some later \<in> set post \<and> uri later = Some u \<and> u \<noteq> [] \<longrightarrow>
              channelNumber big later u \<noteq> Some n))"
proof (induction items rule: rev_induct)
  case Nil
  show ?case by simp
next
  case (snoc it items)
  show ?case
  proof (cases "\<exists>item w. it = Some item \<and> uri item = Some w \<and> w \<noteq> []
                  \<and> channelNumber big item w = Some n")
    case True
    then obtain item w where it: "it = Some item" and w: "uri item = Some w" "w \<noteq> []"
      and c: "channelNumber big item w = Some n"
      by blast
    have l: "addItems big (items @ [it]) Map.empty n = Some w"
      unfolding addItems_snoc using it w c by simp
    have r: "(\<exists>pre item' post. items @ [it] = pre @ Some item' # post
        \<and> uri item' = Some v \<and> v \<noteq> [] \<and> channelNumber big item' v = Some n
        \<and> (\<forall>later u. Some later \<in> set post \<and> uri later = Some u \<and> u \<noteq> [] \<longrightarrow>
              channelNumber big later u \<noteq> Some n)) = (v = w)"
    proof
      assume "\<exists>pre item' post. items @ [it] = pre @ Some item' # post
        \<and> uri item' = Some v \<and> v \<noteq> [] \<and> channelNumber big item' v = Some n
        \<and> (\<forall>later u. Some later \<in> set post \<and> uri later = Some u \<and> u \<noteq> [] \<longrightarrow>
              channelNumber big later u \<noteq> Some n)"
      then obtain pre item' post where e: "items @ [it] = pre @ Some item' # post"
        and u: "uri item' = Some v"
        and n: "\<And>later u. Some later \<in> set post \<Longrightarrow> uri later = Some u \<Longrightarrow> u \<noteq> [] \<Longrightarrow>
              channelNumber big later u \<noteq> Some n"
        by blast
      show "v = w"
      proof (cases post rule: rev_cases)
        case Nil
        with e have "it = Some item'" by simp
        with it u w show ?thesis by simp
      next
        case (snoc post' x)
        with e have "items @ [it] = (pre @ Some item' # post') @ [x]" by simp
        then have "it = x" by (simp only: append1_eq_conv)
        with snoc it have "Some item \<in> set post" by simp
        from n [OF this w] c show ?thesis by simp
      qed
    next
      assume "v = w"
      with it w c have "items @ [it] = items @ Some item # []
        \<and> uri item = Some v \<and> v \<noteq> [] \<and> channelNumber big item v = Some n
        \<and> (\<forall>later u. Some later \<in> set [] \<and> uri later = Some u \<and> u \<noteq> [] \<longrightarrow>
              channelNumber big later u \<noteq> Some n)"
        by simp
      then show "\<exists>pre item' post. items @ [it] = pre @ Some item' # post
        \<and> uri item' = Some v \<and> v \<noteq> [] \<and> channelNumber big item' v = Some n
        \<and> (\<forall>later u. Some later \<in> set post \<and> uri later = Some u \<and> u \<noteq> [] \<longrightarrow>
              channelNumber big later u \<noteq> Some n)"
        by blast
    qed
    show ?thesis unfolding l r by auto
  next
    case False
    then have no: "\<And>item w. it = Some item \<Longrightarrow> uri item = Some w \<Longrightarrow> w \<noteq> [] \<Longrightarrow>
        channelNumber big item w \<noteq> Some n"
      by blast
    have l: "addItems big (items @ [it]) Map.empty n = addItems big items Map.empty n"
      unfolding addItems_snoc using no by (auto split: option.splits)
    have r: "(\<exists>pre item' post. items @ [it] = pre @ Some item' # post
        \<and> uri item' = Some v \<and> v \<noteq> [] \<and> channelNumber big item' v = Some n
        \<and> (\<forall>later u. Some later \<in> set post \<and> uri later = Some u \<and> u \<noteq> [] \<longrightarrow>
              channelNumber big later u \<noteq> Some n)) =
      (\<exists>pre item' post. items = pre @ Some item' # post
        \<and> uri item' = Some v \<and> v \<noteq> [] \<and> channelNumber big item' v = Some n
        \<and> (\<forall>later u. Some later \<in> set post \<and> uri later = Some u \<and> u \<noteq> [] \<longrightarrow>
              channelNumber big later u \<noteq> Some n))"
    proof
      assume "\<exists>pre item' post. items @ [it] = pre @ Some item' # post
        \<and> uri item' = Some v \<and> v \<noteq> [] \<and> channelNumber big item' v = Some n
        \<and> (\<forall>later u. Some later \<in> set post \<and> uri later = Some u \<and> u \<noteq> [] \<longrightarrow>
              channelNumber big later u \<noteq> Some n)"
      then obtain pre item' post where e: "items @ [it] = pre @ Some item' # post"
        and u: "uri item' = Some v" "v \<noteq> []" "channelNumber big item' v = Some n"
        and n: "\<forall>later u. Some later \<in> set post \<and> uri later = Some u \<and> u \<noteq> [] \<longrightarrow>
              channelNumber big later u \<noteq> Some n"
        by blast
      show "\<exists>pre item' post. items = pre @ Some item' # post
        \<and> uri item' = Some v \<and> v \<noteq> [] \<and> channelNumber big item' v = Some n
        \<and> (\<forall>later u. Some later \<in> set post \<and> uri later = Some u \<and> u \<noteq> [] \<longrightarrow>
              channelNumber big later u \<noteq> Some n)"
      proof (cases post rule: rev_cases)
        case Nil
        with e have "it = Some item'" by simp
        from no [OF this u(1,2)] u(3) show ?thesis by simp
      next
        case (snoc post' x)
        with e have "items @ [it] = (pre @ Some item' # post') @ [x]" by simp
        then have i: "items = pre @ Some item' # post'" by (simp only: append1_eq_conv)
        from n snoc have "\<forall>later u. Some later \<in> set post' \<and> uri later = Some u \<and> u \<noteq> [] \<longrightarrow>
              channelNumber big later u \<noteq> Some n"
          by simp
        with i u show ?thesis by blast
      qed
    next
      assume "\<exists>pre item' post. items = pre @ Some item' # post
        \<and> uri item' = Some v \<and> v \<noteq> [] \<and> channelNumber big item' v = Some n
        \<and> (\<forall>later u. Some later \<in> set post \<and> uri later = Some u \<and> u \<noteq> [] \<longrightarrow>
              channelNumber big later u \<noteq> Some n)"
      then obtain pre item' post where e: "items = pre @ Some item' # post"
        and u: "uri item' = Some v" "v \<noteq> []" "channelNumber big item' v = Some n"
        and n: "\<forall>later u. Some later \<in> set post \<and> uri later = Some u \<and> u \<noteq> [] \<longrightarrow>
              channelNumber big later u \<noteq> Some n"
        by blast
      from e have e': "items @ [it] = pre @ Some item' # (post @ [it])" by simp
      from n no have "\<forall>later u. Some later \<in> set (post @ [it]) \<and> uri later = Some u \<and> u \<noteq> [] \<longrightarrow>
              channelNumber big later u \<noteq> Some n"
        by auto
      with e' u show "\<exists>pre item' post. items @ [it] = pre @ Some item' # post
        \<and> uri item' = Some v \<and> v \<noteq> [] \<and> channelNumber big item' v = Some n
        \<and> (\<forall>later u. Some later \<in> set post \<and> uri later = Some u \<and> u \<noteq> [] \<longrightarrow>
              channelNumber big later u \<noteq> Some n)"
        by blast
    qed
    show ?thesis unfolding l r by (rule snoc.IH)
  qed
qed

text \<open>
  Claim C4. The first part of a refresh, up to the request, leaves the channel map as
  it is, so the old map stays visible while the request is in flight. When the call
  succeeds with no entries the controller is left as it is, map included; when it
  succeeds with entries the only change is that the map built from all of them is
  assigned to \<^verbatim>\<open>channelUriByNumber\<close>. That map has nothing of the old one: a number
  has the identifier string of the last entry of the answer that has a nonempty
  identifier string and yields the number, and is not in the map when the answer has no
  such entry.
\<close>

theorem refresh_installs_map:
  "channelUriByNumber (fst (refreshChannelMap_begin now st)) = channelUriByNumber st
   \<and> fst (refreshChannelMap_resume big (Inr []) st) = st
   \<and> (items \<noteq> [] \<longrightarrow>
        fst (refreshChannelMap_resume big (Inr items) st) =
          st\<lparr>channelUriByNumber := buildChannelMap big items\<rparr>)
   \<and> snd (snd (refreshChannelMap_resume big (Inr items) st)) = Inr ()
   \<and> ((buildChannelMap big items n = Some v) =
        (\<exists>pre item post. items = pre @ Some item # post
           \<and> uri item = Some v \<and> v \<noteq> [] \<and> channelNumber big item v = Some n
           \<and> (\<forall>later u. Some later \<in> set post \<and> uri later = Some u \<and> u \<noteq> [] \<longrightarrow>
                 channelNumber big later u \<noteq> Some n)))"
proof (intro conjI)
  show "channelUriByNumber (fst (refreshChannelMap_begin now st)) = channelUriByNumber st"
    by (simp add: refreshChannelMap_begin_def)
  show "fst (refreshChannelMap_resume big (Inr []) st) = st"
    by (simp add: refreshChannelMap_resume_def)
  show "items \<noteq> [] \<longrightarrow>
        fst (refreshChannelMap_resume big (Inr items) st) =
          st\<lparr>channelUriByNumber := buildChannelMap big items\<rparr>"
    by (simp add: refreshChannelMap_resume_def Let_def)
  show "snd (snd (refreshChannelMap_resume big (Inr items) st)) = Inr ()"
    by (simp add: refreshChannelMap_resume_def Let_def)
  show "(buildChannelMap big items n = Some v) =
        (\<exists>pre item post. items = pre @ Some item # post
           \<and> uri item = Some v \<and> v \<noteq> [] \<and> channelNumber big item v = Some n
           \<and> (\<forall>later u. Some later \<in> set post \<and> uri later = Some u \<and> u \<noteq> [] \<longrightarrow>
                 channelNumber big later u \<noteq> Some n))"
    unfolding buildChannelMap_def by (rule addItems_last)
qed

theorem refresh_installs_map_witness:
  "channelUriByNumber (fst (refreshChannelMap_begin 100000 (fst started))) =
     channelUriByNumber (fst started)
   \<and> fst (refreshChannelMap_resume noBig (Inr []) (fst started)) = fst started
   \<and> fst (refreshChannelMap_resume noBig
        (Inr [Some \<lparr>uri = Some ''tv:a'', title = Some ''BBC ONE'', dispNum = Some ''001''\<rparr>,
              Some \<lparr>uri = Some ''tv:b'', title = Some ''1 BBC'', dispNum = None\<rparr>,
              Some \<lparr>uri = Some ''tv:c'', title = Some ''News'', dispNum = None\<rparr>])
        (fst started)) =
       (fst started)\<lparr>channelUriByNumber := buildChannelMap noBig
          [Some \<lparr>uri = Some ''tv:a'', title = Some ''BBC ONE'', dispNum = Some ''001''\<rparr>,
           Some \<lparr>uri = Some ''tv:b'', title = Some ''1 BBC'', dispNum = None\<rparr>,
           Some \<lparr>uri = Some ''tv:c'', title = Some ''News'', dispNum = None\<rparr>]\<rparr>
   \<and> buildChannelMap noBig
          [Some \<lparr>uri = Some ''tv:a'', title = Some ''BBC ONE'', dispNum = Some ''001''\<rparr>,
           Some \<lparr>uri = Some ''tv:b'', title = Some ''1 BBC'', dispNum = None\<rparr>,
           Some \<lparr>uri = Some ''tv:c'', title = Some ''News'', dispNum = None\<rparr>] ''1'' =
       Some ''tv:b''"
proof -
  define a where "a = \<lparr>uri = Some ''tv:a'', title = Some ''BBC ONE'', dispNum = Some ''001''\<rparr>"
  define b where "b = \<lparr>uri = Some ''tv:b'', title = Some ''1 BBC'', dispNum = None\<rparr>"
  define c where "c = \<lparr>uri = Some ''tv:c'', title = Some ''News'', dispNum = None\<rparr>"
  note T = refresh_installs_map [of 100000 "fst started" noBig "[Some a, Some b, Some c]"
      "''1''" "''tv:b''"]
  have 1: "channelUriByNumber (fst (refreshChannelMap_begin 100000 (fst started))) =
     channelUriByNumber (fst started)"
    by (rule T [THEN conjunct1])
  have 2: "fst (refreshChannelMap_resume noBig (Inr []) (fst started)) = fst started"
    by (rule T [THEN conjunct2, THEN conjunct1])
  have ne: "[Some a, Some b, Some c] \<noteq> []" by simp
  have 3: "fst (refreshChannelMap_resume noBig (Inr [Some a, Some b, Some c]) (fst started)) =
       (fst started)\<lparr>channelUriByNumber := buildChannelMap noBig [Some a, Some b, Some c]\<rparr>"
    by (rule T [THEN conjunct2, THEN conjunct2, THEN conjunct1, THEN mp, OF ne])
  have cb: "channelNumber noBig b ''tv:b'' = Some ''1''"
    unfolding b_def by (simp add: string_eval)
  have cc: "channelNumber noBig c ''tv:c'' = None"
    unfolding c_def by (simp add: string_eval)
  have uc: "uri c = Some ''tv:c''" "uri b = Some ''tv:b''" by (simp_all add: b_def c_def)
  have h: "\<exists>pre item post. [Some a, Some b, Some c] = pre @ Some item # post
           \<and> uri item = Some ''tv:b'' \<and> ''tv:b'' \<noteq> [] \<and> channelNumber noBig item ''tv:b'' = Some ''1''
           \<and> (\<forall>later u. Some later \<in> set post \<and> uri later = Some u \<and> u \<noteq> [] \<longrightarrow>
                 channelNumber noBig later u \<noteq> Some ''1'')"
    apply (rule exI [of _ "[Some a]"])
    apply (rule exI [of _ b])
    apply (rule exI [of _ "[Some c]"])
    apply (simp add: cb uc)
    apply (simp add: cc)
    done
  have 4: "buildChannelMap noBig [Some a, Some b, Some c] ''1'' = Some ''tv:b''"
    by (rule T [THEN conjunct2, THEN conjunct2, THEN conjunct2, THEN conjunct2, THEN iffD2, OF h])
  show ?thesis unfolding a_def [symmetric] b_def [symmetric] c_def [symmetric]
    by (intro conjI 1 2 3 4)
qed

lemma refreshStep_sent:
  assumes "lastChannelMapMs (ctl r) = (if sent r = [] then t0 else fst (last (sent r)))"
  shows "lastChannelMapMs (ctl (refreshStep big s r)) =
           (if sent (refreshStep big s r) = [] then t0 else fst (last (sent (refreshStep big s r))))"
proof (cases s)
  case (Call now)
  with assms show ?thesis
    by (auto simp: refreshChannelMap_begin_def)
next
  case (Settle t outcome)
  have "lastChannelMapMs (fst (refreshChannelMap_resume big outcome (ctl r))) = lastChannelMapMs (ctl r)"
    by (cases outcome) (simp_all add: refreshChannelMap_resume_def Let_def)
  with Settle assms show ?thesis
    by (cases "refreshChannelMap_resume big outcome (ctl r)") auto
qed

lemma runRefresh_sent:
  "lastChannelMapMs (ctl (runRefresh big steps st)) =
     (if sent (runRefresh big steps st) = [] then lastChannelMapMs st
      else fst (last (sent (runRefresh big steps st))))"
proof (induction steps rule: rev_induct)
  case Nil
  show ?case by (simp add: runRefresh_def)
next
  case (snoc s steps)
  have "runRefresh big (steps @ [s]) st = refreshStep big s (runRefresh big steps st)"
    by (simp add: runRefresh_def)
  with refreshStep_sent [OF snoc.IH, of big s] show ?case by simp
qed

text \<open>
  Claim C1, as the code has it. A call of \<^verbatim>\<open>refreshChannelMap\<close> made fewer than 60
  seconds after \<^verbatim>\<open>lastChannelMapMs\<close> returns at once, successfully, sends nothing
  and changes nothing. Any other call sets \<^verbatim>\<open>lastChannelMapMs\<close> to its own time
  before the request and sends exactly one \<^verbatim>\<open>getContentList\<close> request. Settling a
  request never touches \<^verbatim>\<open>lastChannelMapMs\<close>: after any run it is the time at which
  the last request was sent, so the window is measured from the start of the last
  refresh that sent a request, whether and whenever that refresh completed.
\<close>

theorem refresh_throttle_from_start:
  "(now - lastChannelMapMs st < 60 * 1000 \<longrightarrow>
      refreshChannelMap big now outcome st = (st, [], Inr ()))
   \<and> (\<not> now - lastChannelMapMs st < 60 * 1000 \<longrightarrow>
      rpcCalls (fst (snd (refreshChannelMap big now outcome st))) = [GetContentList (tvsource st)]
      \<and> refreshChannelMap_begin now st =
          (st\<lparr>lastChannelMapMs := now\<rparr>, Some (GetContentList (tvsource st)))
      \<and> lastChannelMapMs (fst (refreshChannelMap big now outcome st)) = now)
   \<and> lastChannelMapMs (fst (refreshChannelMap_resume big outcome st)) = lastChannelMapMs st
   \<and> lastChannelMapMs (ctl (runRefresh big steps st)) =
       (if sent (runRefresh big steps st) = [] then lastChannelMapMs st
        else fst (last (sent (runRefresh big steps st))))"
proof -
  have a: "now - lastChannelMapMs st < 60 * 1000 \<Longrightarrow>
      refreshChannelMap big now outcome st = (st, [], Inr ())"
    by (simp add: refreshChannelMap_def refreshChannelMap_begin_def)
  have r: "lastChannelMapMs (fst (refreshChannelMap_resume big outcome st)) = lastChannelMapMs st"
    for st
    by (cases outcome) (simp_all add: refreshChannelMap_resume_def Let_def)
  have c: "rpcCalls (fst (snd (refreshChannelMap_resume big outcome st))) = []" for st
    by (cases outcome) (simp_all add: refreshChannelMap_resume_def Let_def rpcCalls_def)
  have b: "\<not> now - lastChannelMapMs st < 60 * 1000 \<Longrightarrow>
      rpcCalls (fst (snd (refreshChannelMap big now outcome st))) = [GetContentList (tvsource st)]
      \<and> refreshChannelMap_begin now st =
          (st\<lparr>lastChannelMapMs := now\<rparr>, Some (GetContentList (tvsource st)))
      \<and> lastChannelMapMs (fst (refreshChannelMap big now outcome st)) = now"
    using r [of "st\<lparr>lastChannelMapMs := now\<rparr>"] c [of "st\<lparr>lastChannelMapMs := now\<rparr>"]
    by (cases "refreshChannelMap_resume big outcome (st\<lparr>lastChannelMapMs := now\<rparr>)")
       (simp add: refreshChannelMap_def refreshChannelMap_begin_def rpcCalls_def)
  show ?thesis using a b r [of st] runRefresh_sent [of big steps st] by blast
qed

theorem refresh_throttle_from_start_witness:
  "refreshChannelMap noBig 30000 (Inr []) (fst started) = (fst started, [], Inr ())
   \<and> rpcCalls (fst (snd (refreshChannelMap noBig 100000 (Inr []) (fst started)))) =
       [GetContentList (tvsource (fst started))]
   \<and> lastChannelMapMs (fst (refreshChannelMap noBig 100000 (Inr []) (fst started))) = 100000
   \<and> sent (runRefresh noBig [Call 100000, Settle 150000 (Inr []), Call 165000] (fst started)) =
       [(100000, GetContentList ''tv:dvbt''), (165000, GetContentList ''tv:dvbt'')]"
proof -
  have z: "lastChannelMapMs (fst started) = 0" by code_simp
  have s: "sent (runRefresh noBig [Call 100000, Settle 150000 (Inr []), Call 165000] (fst started)) =
       [(100000, GetContentList ''tv:dvbt''), (165000, GetContentList ''tv:dvbt'')]"
    by code_simp
  show ?thesis
    using refresh_throttle_from_start [of 30000 "fst started" noBig "Inr []"]
      refresh_throttle_from_start [of 100000 "fst started" noBig "Inr []"] z s
    by simp
qed

text \<open>
  The claim as stated fails in both directions. A refresh that starts at 100 s and
  completes at 150 s does not hold back a call at 165 s, 15 seconds after the
  completion: the call sends a request. A refresh that starts at 100 s and fails at
  101 s is no completed refresh, yet a call at 110 s sends nothing.
\<close>

theorem refresh_window_counterexample:
  "\<not> spec_refresh_claim noBig
       [Call 100000,
        Settle 150000 (Inr [Some \<lparr>uri = Some ''tv:dvbt?trip=1.2.3'', title = Some ''BBC ONE'',
                                  dispNum = Some ''001''\<rparr>])]
       165000 (fst started)
   \<and> \<not> spec_refresh_claim noBig [Call 100000, Settle 101000 (Inl RequestError)]
       110000 (fst started)"
proof -
  have z: "lastChannelMapMs (fst started) = 0" by code_simp
  show ?thesis
    by (simp add: spec_refresh_claim_def runRefresh_def refreshChannelMap_begin_def
          refreshChannelMap_resume_def spec_throttled_def z Let_def)
qed

section \<open>Verification: shutdown while a poll is in flight\<close>

text \<open>
  Claim C2 does not hold of the code: there is no shutdown flag, and the
  \<^verbatim>\<open>finally\<close> block of a tick sets the next timer whatever happened. When the
  shutdown handler runs while the call of a tick is in flight, the settled tick leaves
  a pending poll timer, and its firing sends the next \<^verbatim>\<open>getPowerStatus\<close> request.
\<close>

theorem poll_rescheduled_after_shutdown:
  "powerPollTimeout (fst (fst (poll_resume outcome (shutdown (st, lp))))) =
     Some (nextTimer (snd (shutdown (st, lp))))
   \<and> (nextTimer (snd (shutdown (st, lp))), PollTask, pollIntervalMs st)
       \<in> set (timeouts (snd (fst (poll_resume outcome (shutdown (st, lp))))))
   \<and> (\<exists>w. firePollTimeout (nextTimer (snd (shutdown (st, lp))))
              (fst (poll_resume outcome (shutdown (st, lp)))) = Some (w, [Rpc GetPowerStatus]))"
proof -
  obtain lp' where s: "shutdown (st, lp) = (st, lp')"
    by (simp add: shutdown_def)
  from poll_resume_timer [of outcome st lp']
  have h: "powerPollTimeout (fst (fst (poll_resume outcome (st, lp')))) = Some (nextTimer lp')"
    and t: "(nextTimer lp', PollTask, pollIntervalMs st)
       \<in> set (timeouts (snd (fst (poll_resume outcome (st, lp')))))"
    by simp_all
  from firePollTimeout_pending [OF h t]
  have "\<exists>w. firePollTimeout (nextTimer lp') (fst (poll_resume outcome (st, lp')))
           = Some (w, [Rpc GetPowerStatus])"
    by blast
  with h t show ?thesis unfolding s by simp
qed

theorem poll_rescheduled_after_shutdown_witness:
  "powerPollTimeout (fst (fst (poll_resume (Inr (StatusValue ''active''))
      (shutdown (fst started, snd started))))) = Some 2
   \<and> timeouts (snd (fst (poll_resume (Inr (StatusValue ''active''))
      (shutdown (fst started, snd started))))) = [(2, PollTask, 5000)]
   \<and> map_option snd (firePollTimeout 2
      (fst (poll_resume (Inr (StatusValue ''active'')) (shutdown (fst started, snd started))))) =
     Some [Rpc GetPowerStatus]"
proof -
  have n: "nextTimer (snd (shutdown (fst started, snd started))) = 2"
    by code_simp
  have t: "timeouts (snd (fst (poll_resume (Inr (StatusValue ''active''))
      (shutdown (fst started, snd started))))) = [(2, PollTask, 5000)]"
    by code_simp
  have f: "map_option snd (firePollTimeout 2
      (fst (poll_resume (Inr (StatusValue ''active'')) (shutdown (fst started, snd started))))) =
     Some [Rpc GetPowerStatus]"
    by code_simp
  from poll_rescheduled_after_shutdown [of "Inr (StatusValue ''active'')" "fst started" "snd started"]
  have "powerPollTimeout (fst (fst (poll_resume (Inr (StatusValue ''active''))
      (shutdown (fst started, snd started))))) = Some 2"
    unfolding n by simp
  with t f show ?thesis by simp
qed

section \<open>Verification: channel number derivation\<close>

lemma isDigit_cases:
  "isDigit c \<Longrightarrow> c = CHR ''0'' \<or> c = CHR ''1'' \<or> c = CHR ''2'' \<or> c = CHR ''3'' \<or> c = CHR ''4''
     \<or> c = CHR ''5'' \<or> c = CHR ''6'' \<or> c = CHR ''7'' \<or> c = CHR ''8'' \<or> c = CHR ''9''"
  by (auto simp: isDigit_def)

lemma isDigit_isWordChar: "isDigit c \<Longrightarrow> isWordChar c"
  by (drule isDigit_cases) (auto simp: isWordChar_def)

lemma take_all_iff:
  "(k \<le> length s \<and> list_all P (take k s)) = (k \<le> length (takeWhile P s))"
proof (induction s arbitrary: k)
  case Nil
  show ?case by simp
next
  case (Cons c s)
  show ?case
  proof (cases k)
    case 0
    then show ?thesis by simp
  next
    case (Suc j)
    with Cons.IH [of j] show ?thesis by auto
  qed
qed

lemma titleAttempt_iff:
  assumes "1 \<le> k"
  shows "titleAttempt s k =
     (k = length (takeWhile isDigit s)
      \<and> (dropWhile isDigit s = [] \<or> \<not> isWordChar (hd (dropWhile isDigit s))))"
proof (cases "k \<le> length (takeWhile isDigit s)")
  case False
  then show ?thesis
    using take_all_iff [of k s isDigit] by (auto simp: titleAttempt_def)
next
  case True
  let ?n = "length (takeWhile isDigit s)"
  have pre: "k \<le> length s \<and> list_all isDigit (take k s)"
    using True take_all_iff [of k s isDigit] by simp
  have kth: "takeWhile isDigit s ! (k - 1) = s ! (k - 1)"
    using True assms by (intro takeWhile_nth) simp
  have "k - 1 < ?n" using True assms by simp
  then have "takeWhile isDigit s ! (k - 1) \<in> set (takeWhile isDigit s)" by (rule nth_mem)
  then have "isDigit (takeWhile isDigit s ! (k - 1))" by (auto dest: set_takeWhileD)
  then have before: "isWordChar (s ! (k - 1))"
    using kth by (simp add: isDigit_isWordChar)
  show ?thesis
  proof (cases "k = ?n")
    case False
    then have lt: "k < ?n" using True by simp
    then have "takeWhile isDigit s ! k \<in> set (takeWhile isDigit s)" by (rule nth_mem)
    then have "isDigit (takeWhile isDigit s ! k)" by (auto dest: set_takeWhileD)
    moreover have "takeWhile isDigit s ! k = s ! k" using lt by (rule takeWhile_nth)
    ultimately have "isWordChar (s ! k)" by (simp add: isDigit_isWordChar)
    moreover have "k < length s"
      using lt length_takeWhile_le [of isDigit s] by simp
    ultimately show ?thesis using False before by (simp add: titleAttempt_def wordBoundary_def)
  next
    case eq: True
    have dw: "dropWhile isDigit s = drop k s"
      using eq by (simp add: dropWhile_eq_drop)
    show ?thesis
    proof (cases "k < length s")
      case lt: True
      then have "hd (drop k s) = s ! k" by (simp add: hd_drop_conv_nth)
      moreover have "drop k s \<noteq> []" using lt by simp
      ultimately show ?thesis
        using pre eq before lt dw by (simp add: titleAttempt_def wordBoundary_def)
    next
      case ge: False
      then have "drop k s = []" by simp
      then show ?thesis
        using pre eq before ge dw by (simp add: titleAttempt_def wordBoundary_def)
    qed
  qed
qed

lemma matchTitle_hit:
  assumes "1 \<le> k" and "k \<le> 4" and "titleAttempt s k" and "matchTitle s = Some (take k s)"
  shows "(matchTitle s = Some r) =
     (r = takeWhile isDigit s \<and> 1 \<le> length r \<and> length r \<le> 4
      \<and> (dropWhile isDigit s = [] \<or> \<not> isWordChar (hd (dropWhile isDigit s))))"
proof -
  from assms(1,3) have e: "k = length (takeWhile isDigit s)"
    and bd: "dropWhile isDigit s = [] \<or> \<not> isWordChar (hd (dropWhile isDigit s))"
    by (simp_all add: titleAttempt_iff)
  have "take (length (takeWhile isDigit s)) s = takeWhile isDigit s"
    by (simp add: takeWhile_eq_take [symmetric])
  with e have tk: "take k s = takeWhile isDigit s" by simp
  have len: "1 \<le> length (takeWhile isDigit s) \<and> length (takeWhile isDigit s) \<le> 4"
    using assms(1,2) e by simp
  show ?thesis unfolding assms(4) tk using bd len by auto
qed

lemma matchTitle_iff:
  "(matchTitle s = Some r) =
     (r = takeWhile isDigit s \<and> 1 \<le> length r \<and> length r \<le> 4
      \<and> (dropWhile isDigit s = [] \<or> \<not> isWordChar (hd (dropWhile isDigit s))))"
proof (cases "titleAttempt s 4")
  case True
  then have "matchTitle s = Some (take 4 s)" by (simp add: matchTitle_def)
  with True show ?thesis by (intro matchTitle_hit [of 4]) simp_all
next
  case f4: False
  show ?thesis
  proof (cases "titleAttempt s 3")
    case True
    then have "matchTitle s = Some (take 3 s)" using f4 by (simp add: matchTitle_def)
    with True show ?thesis by (intro matchTitle_hit [of 3]) simp_all
  next
    case f3: False
    show ?thesis
    proof (cases "titleAttempt s 2")
      case True
      then have "matchTitle s = Some (take 2 s)" using f4 f3 by (simp add: matchTitle_def)
      with True show ?thesis by (intro matchTitle_hit [of 2]) simp_all
    next
      case f2: False
      show ?thesis
      proof (cases "titleAttempt s 1")
        case True
        then have "matchTitle s = Some (take 1 s)" using f4 f3 f2 by (simp add: matchTitle_def)
        with True show ?thesis by (intro matchTitle_hit [of 1]) simp_all
      next
        case f1: False
        have none: "matchTitle s = None" using f4 f3 f2 f1 by (simp add: matchTitle_def)
        have "\<not> (1 \<le> length (takeWhile isDigit s) \<and> length (takeWhile isDigit s) \<le> 4
              \<and> (dropWhile isDigit s = [] \<or> \<not> isWordChar (hd (dropWhile isDigit s))))"
        proof
          assume h: "1 \<le> length (takeWhile isDigit s) \<and> length (takeWhile isDigit s) \<le> 4
              \<and> (dropWhile isDigit s = [] \<or> \<not> isWordChar (hd (dropWhile isDigit s)))"
          then have "titleAttempt s (length (takeWhile isDigit s))"
            by (simp add: titleAttempt_iff)
          moreover from h have "length (takeWhile isDigit s) = 1 \<or> length (takeWhile isDigit s) = 2
             \<or> length (takeWhile isDigit s) = 3 \<or> length (takeWhile isDigit s) = 4" by arith
          ultimately show False using f4 f3 f2 f1 by auto
        qed
        then show ?thesis unfolding none by auto
      qed
    qed
  qed
qed

lemma keywordAt_Some:
  assumes "keywordAt kw s = Some r"
  shows "\<exists>k rest. s = k @ r @ rest \<and> map lowerAscii k = kw \<and> allDigits r
           \<and> (rest = [] \<or> \<not> isDigit (hd rest))"
proof -
  from assms have len: "length kw \<le> length s"
    and k: "map lowerAscii (take (length kw) s) = kw"
    and r: "r = takeWhile isDigit (drop (length kw) s)" and ne: "r \<noteq> []"
    by (auto simp: keywordAt_def split: if_splits)
  let ?rest = "dropWhile isDigit (drop (length kw) s)"
  have "s = take (length kw) s @ drop (length kw) s" by simp
  also have "drop (length kw) s = r @ ?rest" by (simp add: r)
  finally have "s = take (length kw) s @ r @ ?rest" .
  moreover have "allDigits r"
    using ne by (auto simp: allDigits_def r list_all_iff dest: set_takeWhileD)
  moreover have "?rest = [] \<or> \<not> isDigit (hd ?rest)"
    by (metis hd_dropWhile)
  ultimately show ?thesis using k by blast
qed

lemma keywordAt_hit:
  assumes "isDigit d"
  shows "keywordAt (map lowerAscii k) (k @ d # rest) \<noteq> None"
  using assms by (simp add: keywordAt_def)

lemma keywords_nth:
  "uriKeywords ! 0 \<in> set uriKeywords" "uriKeywords ! 1 \<in> set uriKeywords"
  "uriKeywords ! 2 \<in> set uriKeywords"
  by (simp_all add: uriKeywords_def)

lemma keywords_cases:
  "kw \<in> set uriKeywords \<Longrightarrow> kw = uriKeywords ! 0 \<or> kw = uriKeywords ! 1 \<or> kw = uriKeywords ! 2"
  by (simp add: uriKeywords_def)

lemma matchKeyAt_Some:
  assumes "matchKeyAt s = Some r"
  shows "\<exists>k rest. s = k @ r @ rest
           \<and> map lowerAscii k \<in> set uriKeywords \<and> allDigits r
           \<and> (rest = [] \<or> \<not> isDigit (hd rest))"
proof -
  from assms have "keywordAt (uriKeywords ! 0) s = Some r \<or> keywordAt (uriKeywords ! 1) s = Some r
      \<or> keywordAt (uriKeywords ! 2) s = Some r"
    by (auto simp: matchKeyAt_def split: option.splits)
  then obtain kw where kw: "kw \<in> set uriKeywords" and hit: "keywordAt kw s = Some r"
    using keywords_nth by blast
  from keywordAt_Some [OF hit] kw show ?thesis by blast
qed

lemma matchKeyAt_hit:
  assumes "map lowerAscii k \<in> set uriKeywords" and "isDigit d"
  shows "matchKeyAt (k @ d # rest) \<noteq> None"
proof -
  have hit: "keywordAt (map lowerAscii k) (k @ d # rest) \<noteq> None"
    using assms(2) by (rule keywordAt_hit)
  from keywords_cases [OF assms(1)] hit
  have "keywordAt (uriKeywords ! 0) (k @ d # rest) \<noteq> None
      \<or> keywordAt (uriKeywords ! 1) (k @ d # rest) \<noteq> None
      \<or> keywordAt (uriKeywords ! 2) (k @ d # rest) \<noteq> None"
    by metis
  then show ?thesis by (auto simp: matchKeyAt_def split: option.splits)
qed

lemma matchUri_Some:
  "matchUri u = Some r \<Longrightarrow>
     \<exists>pre k rest. u = pre @ k @ r @ rest
       \<and> map lowerAscii k \<in> set uriKeywords \<and> allDigits r
       \<and> (rest = [] \<or> \<not> isDigit (hd rest))"
proof (induction u)
  case Nil
  then have "matchKeyAt [] = Some r" by simp
  from matchKeyAt_Some [OF this] show ?case by (metis append_Nil)
next
  case (Cons c cs)
  show ?case
  proof (cases "matchKeyAt (c # cs)")
    case (Some d)
    with Cons.prems have "matchKeyAt (c # cs) = Some r" by simp
    from matchKeyAt_Some [OF this] show ?thesis by (metis append_Nil)
  next
    case None
    with Cons.prems have "matchUri cs = Some r" by simp
    from Cons.IH [OF this] obtain pre k rest where
      "cs = pre @ k @ r @ rest" "map lowerAscii k \<in> set uriKeywords"
      "allDigits r" "rest = [] \<or> \<not> isDigit (hd rest)" by blast
    then have "c # cs = (c # pre) @ k @ r @ rest" by simp
    with \<open>map lowerAscii k \<in> _\<close> \<open>allDigits r\<close> \<open>rest = [] \<or> _\<close> show ?thesis by blast
  qed
qed

lemma matchUri_hit:
  assumes "map lowerAscii k \<in> set uriKeywords" and "isDigit d"
  shows "matchUri (pre @ k @ d # rest) \<noteq> None"
proof (induction pre)
  case Nil
  from matchKeyAt_hit [OF assms, of rest] show ?case
    by (cases "k @ d # rest") (auto split: option.splits)
next
  case (Cons c pre)
  then show ?case by (auto split: option.splits)
qed

lemma matchUri_None:
  assumes "matchUri u = None"
  shows "\<not> (\<exists>pre k d rest. u = pre @ k @ d # rest
           \<and> map lowerAscii k \<in> set uriKeywords \<and> isDigit d)"
proof
  assume "\<exists>pre k d rest. u = pre @ k @ d # rest
           \<and> map lowerAscii k \<in> set uriKeywords \<and> isDigit d"
  then obtain pre k d rest where "u = pre @ k @ d # rest"
    and "map lowerAscii k \<in> set uriKeywords" and "isDigit d"
    by blast
  with matchUri_hit [of k d pre rest] assms show False by simp
qed

text \<open>
  The match in the identifier string is the leftmost one, and there is one match only at
  a place: \<open>ch=\<close> is the start of neither of the other two keywords.
\<close>

lemma matchUri_leftmost:
  "matchUri u = Some r \<Longrightarrow>
     \<exists>pre k rest. u = pre @ k @ r @ rest
       \<and> map lowerAscii k \<in> set uriKeywords \<and> allDigits r
       \<and> (rest = [] \<or> \<not> isDigit (hd rest))
       \<and> (\<forall>pre' k' c rest'. u = pre' @ k' @ c # rest'
              \<and> map lowerAscii k' \<in> set uriKeywords \<and> isDigit c \<longrightarrow> length pre \<le> length pre')"
proof (induction u)
  case Nil
  then have "matchKeyAt [] = Some r" by simp
  from matchKeyAt_Some [OF this] obtain k rest where
    "[] = [] @ k @ r @ rest" "map lowerAscii k \<in> set uriKeywords"
    "allDigits r" "rest = [] \<or> \<not> isDigit (hd rest)" by auto
  moreover have "\<forall>pre' k' c rest'. [] = pre' @ k' @ c # rest'
              \<and> map lowerAscii k' \<in> set uriKeywords \<and> isDigit c \<longrightarrow> length ([] :: string) \<le> length pre'"
    by simp
  ultimately show ?case by blast
next
  case (Cons c cs)
  show ?case
  proof (cases "matchKeyAt (c # cs)")
    case (Some d)
    with Cons.prems have "matchKeyAt (c # cs) = Some r" by simp
    from matchKeyAt_Some [OF this] obtain k rest where
      "c # cs = [] @ k @ r @ rest" "map lowerAscii k \<in> set uriKeywords"
      "allDigits r" "rest = [] \<or> \<not> isDigit (hd rest)" by auto
    moreover have "\<forall>pre' k' d rest'. c # cs = pre' @ k' @ d # rest'
              \<and> map lowerAscii k' \<in> set uriKeywords \<and> isDigit d \<longrightarrow> length ([] :: string) \<le> length pre'"
      by simp
    ultimately show ?thesis by blast
  next
    case None
    with Cons.prems have "matchUri cs = Some r" by simp
    from Cons.IH [OF this] obtain pre k rest where
      e: "cs = pre @ k @ r @ rest" and kw: "map lowerAscii k \<in> set uriKeywords"
      and ad: "allDigits r" and b: "rest = [] \<or> \<not> isDigit (hd rest)"
      and l: "\<forall>pre' k' d rest'. cs = pre' @ k' @ d # rest'
              \<and> map lowerAscii k' \<in> set uriKeywords \<and> isDigit d \<longrightarrow> length pre \<le> length pre'"
      by blast
    have e': "c # cs = (c # pre) @ k @ r @ rest" using e by simp
    have l': "\<forall>pre' k' d rest'. c # cs = pre' @ k' @ d # rest'
              \<and> map lowerAscii k' \<in> set uriKeywords \<and> isDigit d \<longrightarrow> length (c # pre) \<le> length pre'"
    proof (intro allI impI)
      fix pre' k' d rest'
      assume a: "c # cs = pre' @ k' @ d # rest'
              \<and> map lowerAscii k' \<in> set uriKeywords \<and> isDigit d"
      show "length (c # pre) \<le> length pre'"
      proof (cases pre')
        case Nil
        with a have "c # cs = k' @ d # rest'" by simp
        with matchKeyAt_hit [of k' d rest'] a None show ?thesis by simp
      next
        case (Cons x p)
        with a have "cs = p @ k' @ d # rest'" by simp
        with l a have "length pre \<le> length p" by blast
        with Cons show ?thesis by simp
      qed
    qed
    from e' kw ad b l' show ?thesis by blast
  qed
qed

lemma keyword_shape:
  assumes "m \<in> set uriKeywords"
  shows "(length m = 8 \<and> take 3 m \<noteq> uriKeywords ! 2) \<or> (length m = 3 \<and> m = uriKeywords ! 2)"
  using assms by (auto simp: uriKeywords_def)

lemma keyword_unique:
  assumes k: "map lowerAscii k \<in> set uriKeywords" and k': "map lowerAscii k' \<in> set uriKeywords"
    and e: "k @ x = k' @ y"
  shows "k = k'"
proof (cases "length k = length k'")
  case True
  with e show ?thesis by simp
next
  case False
  have short: False
    if a: "length a = 8" "take 3 (map lowerAscii a) \<noteq> uriKeywords ! 2"
      and b: "length b = 3" "map lowerAscii b = uriKeywords ! 2"
      and ab: "a @ v = b @ w" for a b :: string and v w
  proof -
    from ab have "take 3 (a @ v) = take 3 (b @ w)" by simp
    with a(1) b(1) have "take 3 a = b" by simp
    then have "take 3 (map lowerAscii a) = map lowerAscii b" by (simp add: take_map)
    with a(2) b(2) show False by simp
  qed
  from keyword_shape [OF k]
  have sk: "(length k = 8 \<and> take 3 (map lowerAscii k) \<noteq> uriKeywords ! 2)
      \<or> (length k = 3 \<and> map lowerAscii k = uriKeywords ! 2)"
    by simp
  from keyword_shape [OF k']
  have sk': "(length k' = 8 \<and> take 3 (map lowerAscii k') \<noteq> uriKeywords ! 2)
      \<or> (length k' = 3 \<and> map lowerAscii k' = uriKeywords ! 2)"
    by simp
  from sk show ?thesis
  proof (elim disjE conjE)
    assume 1: "length k = 8" "take 3 (map lowerAscii k) \<noteq> uriKeywords ! 2"
    from sk' show ?thesis
    proof (elim disjE conjE)
      assume "length k' = 8"
      with 1 False show ?thesis by simp
    next
      assume "length k' = 3" "map lowerAscii k' = uriKeywords ! 2"
      with short [OF 1 _ _ e] show ?thesis by simp
    qed
  next
    assume 2: "length k = 3" "map lowerAscii k = uriKeywords ! 2"
    from sk' show ?thesis
    proof (elim disjE conjE)
      assume "length k' = 8" "take 3 (map lowerAscii k') \<noteq> uriKeywords ! 2"
      with short [OF _ _ 2 e [symmetric]] show ?thesis by simp
    next
      assume "length k' = 3"
      with 2 False show ?thesis by simp
    qed
  qed
qed

lemma digit_run_unique:
  assumes "allDigits r" and "rest = [] \<or> \<not> isDigit (hd rest)"
  shows "takeWhile isDigit (r @ rest) = r"
proof -
  from assms(1) have "\<forall>c\<in>set r. isDigit c" by (simp add: allDigits_def list_all_iff)
  then have "takeWhile isDigit (r @ rest) = r @ takeWhile isDigit rest"
    by (simp add: takeWhile_append2)
  moreover from assms(2) have "takeWhile isDigit rest = []" by (cases rest) auto
  ultimately show ?thesis by simp
qed

lemma matchUri_iff:
  "(matchUri u = Some r) =
     (\<exists>pre k rest. u = pre @ k @ r @ rest
       \<and> map lowerAscii k \<in> set uriKeywords \<and> allDigits r
       \<and> (rest = [] \<or> \<not> isDigit (hd rest))
       \<and> (\<forall>pre' k' c rest'. u = pre' @ k' @ c # rest'
              \<and> map lowerAscii k' \<in> set uriKeywords \<and> isDigit c \<longrightarrow> length pre \<le> length pre'))"
proof
  assume "matchUri u = Some r"
  then show "\<exists>pre k rest. u = pre @ k @ r @ rest
       \<and> map lowerAscii k \<in> set uriKeywords \<and> allDigits r
       \<and> (rest = [] \<or> \<not> isDigit (hd rest))
       \<and> (\<forall>pre' k' c rest'. u = pre' @ k' @ c # rest'
              \<and> map lowerAscii k' \<in> set uriKeywords \<and> isDigit c \<longrightarrow> length pre \<le> length pre')"
    by (rule matchUri_leftmost)
next
  assume "\<exists>pre k rest. u = pre @ k @ r @ rest
       \<and> map lowerAscii k \<in> set uriKeywords \<and> allDigits r
       \<and> (rest = [] \<or> \<not> isDigit (hd rest))
       \<and> (\<forall>pre' k' c rest'. u = pre' @ k' @ c # rest'
              \<and> map lowerAscii k' \<in> set uriKeywords \<and> isDigit c \<longrightarrow> length pre \<le> length pre')"
  then obtain pre k rest where e: "u = pre @ k @ r @ rest"
    and kw: "map lowerAscii k \<in> set uriKeywords" and ad: "allDigits r"
    and b: "rest = [] \<or> \<not> isDigit (hd rest)"
    and l: "\<And>pre' k' c rest'. u = pre' @ k' @ c # rest' \<Longrightarrow>
              map lowerAscii k' \<in> set uriKeywords \<Longrightarrow> isDigit c \<Longrightarrow> length pre \<le> length pre'"
    by blast
  from ad obtain d ds where r: "r = d # ds" and d: "isDigit d"
    by (cases r) (auto simp: allDigits_def)
  have occ: "u = pre @ k @ d # (ds @ rest)" using e r by simp
  have "matchUri u \<noteq> None" unfolding occ using kw d by (rule matchUri_hit)
  then obtain r2 where m: "matchUri u = Some r2" by blast
  from matchUri_leftmost [OF m] obtain pre2 k2 rest2 where e2: "u = pre2 @ k2 @ r2 @ rest2"
    and kw2: "map lowerAscii k2 \<in> set uriKeywords" and ad2: "allDigits r2"
    and b2: "rest2 = [] \<or> \<not> isDigit (hd rest2)"
    and l2: "\<And>pre' k' c rest'. u = pre' @ k' @ c # rest' \<Longrightarrow>
              map lowerAscii k' \<in> set uriKeywords \<Longrightarrow> isDigit c \<Longrightarrow> length pre2 \<le> length pre'"
    by blast
  from ad2 obtain d2 ds2 where r2: "r2 = d2 # ds2" and d2: "isDigit d2"
    by (cases r2) (auto simp: allDigits_def)
  have occ2: "u = pre2 @ k2 @ d2 # (ds2 @ rest2)" using e2 r2 by simp
  have "length pre \<le> length pre2" using l [OF occ2 kw2 d2] .
  moreover have "length pre2 \<le> length pre" using l2 [OF occ kw d] .
  ultimately have len: "length pre = length pre2" by simp
  from e e2 have "pre @ (k @ r @ rest) = pre2 @ (k2 @ r2 @ rest2)" by simp
  with len have p: "pre = pre2" and s: "k @ (r @ rest) = k2 @ (r2 @ rest2)" by simp_all
  from keyword_unique [OF kw kw2 s] have kk: "k = k2" .
  with s have "r @ rest = r2 @ rest2" by simp
  then have "takeWhile isDigit (r @ rest) = takeWhile isDigit (r2 @ rest2)" by simp
  then have "r = r2"
    unfolding digit_run_unique [OF ad b] digit_run_unique [OF ad2 b2] .
  with m show "matchUri u = Some r" by simp
qed

lemma channelNumber_tier1:
  "dispNum item = Some d \<Longrightarrow> allDigits d \<Longrightarrow> channelNumber big item u = Some (normNumber big d)"
  by (simp add: channelNumber_def allDigits_def Let_def split: option.splits)

lemma channelNumber_tier2:
  assumes "\<forall>d. dispNum item = Some d \<longrightarrow> \<not> allDigits d"
    and "title item = Some t" and "matchTitle (trim t) = Some r"
  shows "channelNumber big item u = Some (normNumber big r)"
proof -
  have "t \<noteq> []"
  proof
    assume "t = []"
    then have "matchTitle (trim t) = None"
      by (simp add: trim_def matchTitle_def titleAttempt_def)
    with assms(3) show False by simp
  qed
  with assms show ?thesis
    by (cases "dispNum item") (auto simp: channelNumber_def allDigits_def Let_def)
qed

lemma channelNumber_tier3:
  assumes "\<forall>d. dispNum item = Some d \<longrightarrow> \<not> allDigits d"
    and "\<forall>t. title item = Some t \<longrightarrow> matchTitle (trim t) = None"
  shows "channelNumber big item u = map_option (normNumber big) (matchUri u)"
  using assms
  by (cases "dispNum item"; cases "title item"; cases "matchUri u")
     (auto simp: channelNumber_def allDigits_def Let_def)

lemma addItems_source:
  "addItems big items m n = Some v \<Longrightarrow>
     m n = Some v \<or>
     (\<exists>item. Some item \<in> set items \<and> uri item = Some v \<and> v \<noteq> []
        \<and> channelNumber big item v = Some n)"
proof (induction items arbitrary: m)
  case Nil
  then show ?case by simp
next
  case (Cons it its)
  let ?m = "(case it of
          None \<Rightarrow> m
        | Some item \<Rightarrow>
            (case uri item of
               None \<Rightarrow> m
             | Some u \<Rightarrow>
                 if u = [] then m
                 else (case channelNumber big item u of
                         None \<Rightarrow> m
                       | Some n \<Rightarrow> m(n \<mapsto> u))))"
  from Cons.prems have "addItems big its ?m n = Some v" by simp
  from Cons.IH [OF this] consider "?m n = Some v"
    | "\<exists>item. Some item \<in> set its \<and> uri item = Some v \<and> v \<noteq> []
        \<and> channelNumber big item v = Some n" by blast
  then show ?case
  proof cases
    case 1
    then show ?thesis
      by (auto split: option.splits if_splits)
  next
    case 2
    then show ?thesis by auto
  qed
qed

lemma buildChannelMap_source:
  "buildChannelMap big items n = Some v \<Longrightarrow>
     \<exists>item. Some item \<in> set items \<and> uri item = Some v \<and> v \<noteq> []
        \<and> channelNumber big item v = Some n"
  using addItems_source [of big items Map.empty n v] by (simp add: buildChannelMap_def)

lemma matchUri_None_iff:
  "(matchUri u = None) =
     (\<not> (\<exists>pre k c rest. u = pre @ k @ c # rest
           \<and> map lowerAscii k \<in> set uriKeywords \<and> isDigit c))"
proof
  assume "matchUri u = None"
  then show "\<not> (\<exists>pre k c rest. u = pre @ k @ c # rest
           \<and> map lowerAscii k \<in> set uriKeywords \<and> isDigit c)"
    by (rule matchUri_None)
next
  assume n: "\<not> (\<exists>pre k c rest. u = pre @ k @ c # rest
           \<and> map lowerAscii k \<in> set uriKeywords \<and> isDigit c)"
  show "matchUri u = None"
  proof (cases "matchUri u")
    case None
    then show ?thesis .
  next
    case (Some r)
    from matchUri_Some [OF Some] obtain pre k rest where e: "u = pre @ k @ r @ rest"
      and kw: "map lowerAscii k \<in> set uriKeywords" and ad: "allDigits r"
      by blast
    from ad obtain d ds where r: "r = d # ds" and d: "isDigit d"
      by (cases r) (auto simp: allDigits_def)
    from e r have "u = pre @ k @ d # (ds @ rest)" by simp
    with kw d n show ?thesis by blast
  qed
qed

text \<open>
  Claim C5, as the code has it. The number of an entry is taken, in this order: from
  the display-number field when that is all digits; else from the trimmed title when it
  starts with a run of 1 to 4 digits that ends the title or is followed by a character
  other than an ASCII letter, a digit or an underscore; else from the identifier string,
  at the leftmost place where \<open>dispNum=\<close>, \<open>channel=\<close> or \<open>ch=\<close> (the ASCII letters in
  either case) is followed by a digit, with the whole run of digits that follows the
  keyword there; there is no number when there is no such place. The number found is
  stored as \<^verbatim>\<open>String(Number(...))\<close> prints it. A display field \<open>12\<close> with the title
  \<open>99 Other Channel\<close> gives \<open>12\<close>. Every key of the map comes from an entry that has
  an identifier string and yields that number, so an entry without a number adds nothing.
\<close>

theorem channelNumber_precedence:
  "(dispNum item = Some d \<and> allDigits d \<longrightarrow>
      channelNumber big item u = Some (normNumber big d))
   \<and> ((\<forall>d. dispNum item = Some d \<longrightarrow> \<not> allDigits d) \<and> title item = Some t
        \<and> matchTitle (trim t) = Some r \<longrightarrow>
      channelNumber big item u = Some (normNumber big r))
   \<and> ((\<forall>d. dispNum item = Some d \<longrightarrow> \<not> allDigits d)
        \<and> (\<forall>t. title item = Some t \<longrightarrow> matchTitle (trim t) = None) \<longrightarrow>
      channelNumber big item u = map_option (normNumber big) (matchUri u))
   \<and> ((matchTitle s = Some r) =
        (r = takeWhile isDigit s \<and> 1 \<le> length r \<and> length r \<le> 4
         \<and> (dropWhile isDigit s = [] \<or> \<not> isWordChar (hd (dropWhile isDigit s)))))
   \<and> ((matchUri u = Some r) =
        (\<exists>pre k rest. u = pre @ k @ r @ rest \<and> map lowerAscii k \<in> set uriKeywords
           \<and> allDigits r \<and> (rest = [] \<or> \<not> isDigit (hd rest))
           \<and> (\<forall>pre' k' c rest'. u = pre' @ k' @ c # rest'
                  \<and> map lowerAscii k' \<in> set uriKeywords \<and> isDigit c \<longrightarrow>
                length pre \<le> length pre')))
   \<and> ((matchUri u = None) =
        (\<not> (\<exists>pre k c rest. u = pre @ k @ c # rest \<and> map lowerAscii k \<in> set uriKeywords
              \<and> isDigit c)))
   \<and> (buildChannelMap big items n = Some v \<longrightarrow>
        (\<exists>it. Some it \<in> set items \<and> uri it = Some v \<and> v \<noteq> []
           \<and> channelNumber big it v = Some n))"
proof (intro conjI)
  show "dispNum item = Some d \<and> allDigits d \<longrightarrow>
      channelNumber big item u = Some (normNumber big d)"
    using channelNumber_tier1 [of item d big u] by blast
  show "(\<forall>d. dispNum item = Some d \<longrightarrow> \<not> allDigits d) \<and> title item = Some t
        \<and> matchTitle (trim t) = Some r \<longrightarrow>
      channelNumber big item u = Some (normNumber big r)"
    using channelNumber_tier2 [of item t r big u] by blast
  show "(\<forall>d. dispNum item = Some d \<longrightarrow> \<not> allDigits d)
        \<and> (\<forall>t. title item = Some t \<longrightarrow> matchTitle (trim t) = None) \<longrightarrow>
      channelNumber big item u = map_option (normNumber big) (matchUri u)"
    using channelNumber_tier3 [of item big u] by blast
  show "(matchTitle s = Some r) =
        (r = takeWhile isDigit s \<and> 1 \<le> length r \<and> length r \<le> 4
         \<and> (dropWhile isDigit s = [] \<or> \<not> isWordChar (hd (dropWhile isDigit s))))"
    by (rule matchTitle_iff)
  show "(matchUri u = Some r) =
        (\<exists>pre k rest. u = pre @ k @ r @ rest \<and> map lowerAscii k \<in> set uriKeywords
           \<and> allDigits r \<and> (rest = [] \<or> \<not> isDigit (hd rest))
           \<and> (\<forall>pre' k' c rest'. u = pre' @ k' @ c # rest'
                  \<and> map lowerAscii k' \<in> set uriKeywords \<and> isDigit c \<longrightarrow>
                length pre \<le> length pre'))"
    by (rule matchUri_iff)
  show "(matchUri u = None) =
        (\<not> (\<exists>pre k c rest. u = pre @ k @ c # rest \<and> map lowerAscii k \<in> set uriKeywords
              \<and> isDigit c))"
    by (rule matchUri_None_iff)
  show "buildChannelMap big items n = Some v \<longrightarrow>
        (\<exists>it. Some it \<in> set items \<and> uri it = Some v \<and> v \<noteq> []
           \<and> channelNumber big it v = Some n)"
    using buildChannelMap_source [of big items n v] by blast
qed

theorem channelNumber_precedence_witness:
  "channelNumber noBig
     \<lparr>uri = Some ''tv:dvbt'', title = Some ''99 Other Channel'', dispNum = Some ''12''\<rparr>
     ''tv:dvbt'' = Some ''12''
   \<and> channelNumber noBig
     \<lparr>uri = Some ''tv:dvbt'', title = Some '' 7 News'', dispNum = Some ''HD''\<rparr>
     ''tv:dvbt'' = Some ''7''
   \<and> channelNumber noBig
     \<lparr>uri = Some ''tv:x?Ch=021'', title = Some ''5USA'', dispNum = None\<rparr>
     ''tv:x?Ch=021'' = Some ''21''
   \<and> (\<exists>pre k rest. ''tv:x?Ch=021'' = pre @ k @ ''021'' @ rest
         \<and> map lowerAscii k \<in> set uriKeywords \<and> allDigits ''021''
         \<and> (rest = [] \<or> \<not> isDigit (hd rest)))
   \<and> matchUri ''ch=1&dispNum=2'' = Some ''1''
   \<and> \<not> (\<exists>pre k c rest. ''tv:dvbt'' = pre @ k @ c # rest
           \<and> map lowerAscii k \<in> set uriKeywords \<and> isDigit c)
   \<and> (\<exists>it. Some it \<in> set [Some \<lparr>uri = Some ''tv:dvbt'', title = Some ''99 Other Channel'',
                                   dispNum = Some ''12''\<rparr>]
         \<and> uri it = Some ''tv:dvbt'' \<and> ''tv:dvbt'' \<noteq> []
         \<and> channelNumber noBig it ''tv:dvbt'' = Some ''12'')"
proof -
  have h1: "dispNum \<lparr>uri = Some ''tv:dvbt'', title = Some ''99 Other Channel'',
                     dispNum = Some ''12''\<rparr> = Some ''12'' \<and> allDigits ''12''"
    by (simp add: allDigits_def isDigit_def)
  have n1: "normNumber noBig ''12'' = ''12''"
    by (simp add: string_eval)
  have c1: "channelNumber noBig
     \<lparr>uri = Some ''tv:dvbt'', title = Some ''99 Other Channel'', dispNum = Some ''12''\<rparr>
     ''tv:dvbt'' = Some (normNumber noBig ''12'')"
    by (rule channelNumber_precedence [THEN conjunct1, THEN mp, OF h1])
  have h2: "(\<forall>d. dispNum \<lparr>uri = Some ''tv:dvbt'', title = Some '' 7 News'',
                           dispNum = Some ''HD''\<rparr> = Some d \<longrightarrow> \<not> allDigits d)
      \<and> title \<lparr>uri = Some ''tv:dvbt'', title = Some '' 7 News'',
                 dispNum = Some ''HD''\<rparr> = Some '' 7 News''
      \<and> matchTitle (trim '' 7 News'') = Some ''7''"
    by (simp add: string_eval)
  have n2: "normNumber noBig ''7'' = ''7''"
    by (simp add: string_eval)
  have c2: "channelNumber noBig
     \<lparr>uri = Some ''tv:dvbt'', title = Some '' 7 News'', dispNum = Some ''HD''\<rparr>
     ''tv:dvbt'' = Some (normNumber noBig ''7'')"
    by (rule channelNumber_precedence [THEN conjunct2, THEN conjunct1, THEN mp, OF h2])
  have h3: "(\<forall>d. dispNum \<lparr>uri = Some ''tv:x?Ch=021'', title = Some ''5USA'',
                           dispNum = None\<rparr> = Some d \<longrightarrow> \<not> allDigits d)
      \<and> (\<forall>t. title \<lparr>uri = Some ''tv:x?Ch=021'', title = Some ''5USA'',
                         dispNum = None\<rparr> = Some t \<longrightarrow> matchTitle (trim t) = None)"
    by (simp add: string_eval)
  have h4: "matchUri ''tv:x?Ch=021'' = Some ''021''"
    by (simp add: string_eval)
  have n3: "normNumber noBig ''021'' = ''21''"
    by (simp add: string_eval)
  have c3: "channelNumber noBig
     \<lparr>uri = Some ''tv:x?Ch=021'', title = Some ''5USA'', dispNum = None\<rparr>
     ''tv:x?Ch=021'' = map_option (normNumber noBig) (matchUri ''tv:x?Ch=021'')"
    by (rule channelNumber_precedence
          [THEN conjunct2, THEN conjunct2, THEN conjunct1, THEN mp, OF h3])
  have t1: "channelNumber noBig
     \<lparr>uri = Some ''tv:dvbt'', title = Some ''99 Other Channel'', dispNum = Some ''12''\<rparr>
     ''tv:dvbt'' = Some ''12''"
    unfolding c1 n1 by (rule refl)
  have t2: "channelNumber noBig
     \<lparr>uri = Some ''tv:dvbt'', title = Some '' 7 News'', dispNum = Some ''HD''\<rparr>
     ''tv:dvbt'' = Some ''7''"
    unfolding c2 n2 by (rule refl)
  have t3: "channelNumber noBig
     \<lparr>uri = Some ''tv:x?Ch=021'', title = Some ''5USA'', dispNum = None\<rparr>
     ''tv:x?Ch=021'' = Some ''21''"
    unfolding c3 h4 using n3 by simp
  have t4: "\<exists>pre k rest. ''tv:x?Ch=021'' = pre @ k @ ''021'' @ rest
         \<and> map lowerAscii k \<in> set uriKeywords \<and> allDigits ''021''
         \<and> (rest = [] \<or> \<not> isDigit (hd rest))"
  proof -
    define x where "x = ''tv:x?Ch=021''"
    define y where "y = ''021''"
    note m = channelNumber_precedence
          [THEN conjunct2, THEN conjunct2, THEN conjunct2, THEN conjunct2, THEN conjunct1,
           THEN iffD1, OF h4]
    from m [folded x_def y_def]
    have "\<exists>pre k rest. x = pre @ k @ y @ rest
         \<and> map lowerAscii k \<in> set uriKeywords \<and> allDigits y
         \<and> (rest = [] \<or> \<not> isDigit (hd rest))"
      by blast
    then show ?thesis unfolding x_def y_def .
  qed
  have h7: "\<exists>pre k rest. ''ch=1&dispNum=2'' = pre @ k @ ''1'' @ rest
         \<and> map lowerAscii k \<in> set uriKeywords \<and> allDigits ''1''
         \<and> (rest = [] \<or> \<not> isDigit (hd rest))
         \<and> (\<forall>pre' k' c rest'. ''ch=1&dispNum=2'' = pre' @ k' @ c # rest'
                \<and> map lowerAscii k' \<in> set uriKeywords \<and> isDigit c \<longrightarrow>
              length pre \<le> length pre')"
    apply (rule exI [of _ "[]"])
    apply (rule exI [of _ "''ch=''"])
    apply (rule exI [of _ "''&dispNum=2''"])
    apply (simp add: string_eval)
    done
  have t7: "matchUri ''ch=1&dispNum=2'' = Some ''1''"
    by (rule channelNumber_precedence
          [THEN conjunct2, THEN conjunct2, THEN conjunct2, THEN conjunct2, THEN conjunct1,
           THEN iffD2, OF h7])
  have h5: "matchUri ''tv:dvbt'' = None"
    by (simp add: string_eval)
  have t5: "\<not> (\<exists>pre k c rest. ''tv:dvbt'' = pre @ k @ c # rest
           \<and> map lowerAscii k \<in> set uriKeywords \<and> isDigit c)"
    by (rule channelNumber_precedence
          [THEN conjunct2, THEN conjunct2, THEN conjunct2, THEN conjunct2, THEN conjunct2,
           THEN conjunct1, THEN iffD1, OF h5])
  have h6: "buildChannelMap noBig
      [Some \<lparr>uri = Some ''tv:dvbt'', title = Some ''99 Other Channel'', dispNum = Some ''12''\<rparr>]
      ''12'' = Some ''tv:dvbt''"
    by (simp add: string_eval)
  have t6: "\<exists>it. Some it \<in> set [Some \<lparr>uri = Some ''tv:dvbt'', title = Some ''99 Other Channel'',
                                   dispNum = Some ''12''\<rparr>]
         \<and> uri it = Some ''tv:dvbt'' \<and> ''tv:dvbt'' \<noteq> []
         \<and> channelNumber noBig it ''tv:dvbt'' = Some ''12''"
    by (rule channelNumber_precedence
          [THEN conjunct2, THEN conjunct2, THEN conjunct2, THEN conjunct2, THEN conjunct2,
           THEN conjunct2, THEN mp, OF h6])
  show ?thesis by (intro conjI t1 t2 t3 t4 t7 t5 t6)
qed

text \<open>
  The claim as stated fails for the second tier: the title \<open>5USA\<close> starts with a run
  of one digit, which the specification's wording takes as the number, but the run is
  followed by a letter, so the code finds no number in the title; with nothing in the
  identifier string either, the entry is dropped.
\<close>

theorem title_run_counterexample:
  "spec_titleNumber (trim ''5USA'') = Some ''5''
   \<and> matchTitle (trim ''5USA'') = None
   \<and> channelNumber noBig
        \<lparr>uri = Some ''tv:dvbt'', title = Some ''5USA'', dispNum = None\<rparr>
        ''tv:dvbt'' = None
   \<and> buildChannelMap noBig
        [Some \<lparr>uri = Some ''tv:dvbt'', title = Some ''5USA'', dispNum = None\<rparr>]
        ''5'' = None"
  by (simp add: string_eval spec_titleNumber_def)

section \<open>Verification: favourites loader\<close>

lemma digitsValue_snoc: "digitsValue (s @ [c]) = 10 * digitsValue s + digitVal c"
  by (simp add: digitsValue_def)

lemma digitVal_lt: "isDigit c \<Longrightarrow> digitVal c < 10"
  by (drule isDigit_cases) (auto simp: digitVal_def)

lemma digitChar_digitVal: "isDigit c \<Longrightarrow> digitChar (digitVal c) = c"
  by (drule isDigit_cases) (auto simp: digitVal_def digitChar_def)

lemma digitVal_zero: "isDigit c \<Longrightarrow> (digitVal c = 0) = (c = CHR ''0'')"
  by (drule isDigit_cases) (auto simp: digitVal_def)

lemma digitsValue_zero:
  "list_all isDigit s \<Longrightarrow> (digitsValue s = 0) = (\<forall>c\<in>set s. c = CHR ''0'')"
proof (induction s rule: rev_induct)
  case Nil
  show ?case by (simp add: digitsValue_def)
next
  case (snoc c s)
  then show ?case by (auto simp: digitsValue_snoc digitVal_zero)
qed

lemma decimal_digitsValue:
  "list_all isDigit s \<Longrightarrow> s \<noteq> [] \<Longrightarrow> decimal (digitsValue s) = stripZeros s"
proof (induction s rule: rev_induct)
  case Nil
  then show ?case by simp
next
  case (snoc c s)
  from snoc.prems have dc: "isDigit c" and ds: "list_all isDigit s" by simp_all
  have lt: "digitVal c < 10" using dc by (rule digitVal_lt)
  show ?case
  proof (cases "digitsValue s = 0")
    case True
    then have zeros: "\<forall>x\<in>set s. x = CHR ''0''" using ds by (simp add: digitsValue_zero)
    then have dw: "dropWhile (\<lambda>x. x = CHR ''0'') (s @ [c]) = dropWhile (\<lambda>x. x = CHR ''0'') [c]"
      by (simp add: dropWhile_append2)
    have "decimal (digitsValue (s @ [c])) = [c]"
      using True lt dc by (simp add: digitsValue_snoc decimal.simps digitChar_digitVal)
    moreover have "stripZeros (s @ [c]) = [c]"
      unfolding stripZeros_def dw by simp
    ultimately show ?thesis by simp
  next
    case False
    then have ne: "s \<noteq> []" by (auto simp: digitsValue_def)
    from False ds have "\<not> (\<forall>x\<in>set s. x = CHR ''0'')" by (simp add: digitsValue_zero)
    then have nz: "dropWhile (\<lambda>x. x = CHR ''0'') s \<noteq> []" by (simp add: dropWhile_eq_Nil_conv)
    then have dw: "dropWhile (\<lambda>x. x = CHR ''0'') (s @ [c]) = dropWhile (\<lambda>x. x = CHR ''0'') s @ [c]"
      by (metis dropWhile_append1 dropWhile_eq_Nil_conv)
    have ih: "decimal (digitsValue s) = stripZeros s" using snoc.IH ds ne by simp
    have "decimal (digitsValue (s @ [c])) = decimal (digitsValue s) @ [c]"
      using False lt dc
      by (subst decimal.simps) (simp add: digitsValue_snoc digitChar_digitVal)
    moreover have "stripZeros (s @ [c]) = stripZeros s @ [c]"
      using nz unfolding stripZeros_def dw by (auto simp: Let_def)
    ultimately show ?thesis using ih by simp
  qed
qed

lemma normNumber_small:
  "allDigits s \<Longrightarrow> digitsValue s < 9007199254740992 \<Longrightarrow> normNumber big s = stripZeros s"
  by (simp add: normNumber_def allDigits_def decimal_digitsValue)

lemma loadLoop_eq:
  "loadLoop big mx ls out =
     (if List.map_filter (parseLine big) ls = [] then out
      else out @ take (max 1 (nat (\<lceil>mx\<rceil> - int (length out))))
                   (List.map_filter (parseLine big) ls))"
proof (induction ls arbitrary: out)
  case Nil
  show ?case by (simp add: List.map_filter_simps)
next
  case (Cons l ls)
  show ?case
  proof (cases "parseLine big l")
    case None
    then show ?thesis using Cons.IH [of out] by (simp add: List.map_filter_simps)
  next
    case (Some f)
    show ?thesis
    proof (cases "real (length (out @ [f])) \<ge> mx")
      case True
      then have "\<lceil>mx\<rceil> \<le> int (length out) + 1" by (simp add: ceiling_le_iff)
      then have "max 1 (nat (\<lceil>mx\<rceil> - int (length out))) = 1" by simp
      then show ?thesis using Some True by (simp add: List.map_filter_simps)
    next
      case False
      then have "int (length out) + 1 < \<lceil>mx\<rceil>" by (simp add: less_ceiling_iff)
      then have k: "max 1 (nat (\<lceil>mx\<rceil> - int (length out))) =
          Suc (max 1 (nat (\<lceil>mx\<rceil> - int (length (out @ [f])))))"
        by (simp add: max_def) linarith
      show ?thesis using Some False Cons.IH [of "out @ [f]"]
        unfolding k by (simp add: List.map_filter_simps Let_def)
    qed
  qed
qed

lemma loadFavourites_take:
  "1 \<le> k \<Longrightarrow>
     fst (loadFavourites big (Some (real k)) (Some raw)) =
       take k (List.map_filter (parseLine big) (splitLines raw))"
  by (simp add: loadFavourites_def loadLoop_eq max_def)

lemma indexOf_Some:
  "indexOf x s = Some i \<Longrightarrow> s = take i s @ x # drop (Suc i) s \<and> x \<notin> set (take i s)"
proof (induction s arbitrary: i)
  case Nil
  then show ?case by simp
next
  case (Cons c cs)
  show ?case
  proof (cases "c = x")
    case True
    with Cons.prems show ?thesis by simp
  next
    case False
    with Cons.prems obtain j where j: "indexOf x cs = Some j" and i: "i = Suc j" by auto
    from Cons.IH [OF j] False show ?thesis unfolding i by simp
  qed
qed

lemma indexOf_split: "x \<notin> set a \<Longrightarrow> indexOf x (a @ x # b) = Some (length a)"
  by (induction a) auto

lemma parseLine_iff:
  "(parseLine big l = Some f) =
     (\<exists>a b. trim l = a @ CHR ''='' # b \<and> CHR ''='' \<notin> set a \<and> a \<noteq> []
        \<and> hd a \<noteq> CHR ''#'' \<and> trim a \<noteq> [] \<and> allDigits (trim b)
        \<and> f = \<lparr>name = trim a, number = normNumber big (trim b)\<rparr>)"
proof
  assume p: "parseLine big l = Some f"
  let ?line = "trim l"
  from p have ne: "?line \<noteq> []" and nc: "hd ?line \<noteq> CHR ''#''"
    by (auto simp: parseLine_def Let_def split: if_splits)
  from p ne nc obtain eq where ix: "indexOf CHR ''='' ?line = Some eq"
    by (auto simp: parseLine_def Let_def split: option.splits)
  from p ne nc ix have ge: "1 \<le> eq" and nm: "trim (take eq ?line) \<noteq> []"
    and dg: "allDigits (trim (drop (eq + 1) ?line))"
    and f: "f = \<lparr>name = trim (take eq ?line),
                  number = normNumber big (trim (drop (eq + 1) ?line))\<rparr>"
    by (auto simp: parseLine_def Let_def split: if_splits)
  from indexOf_Some [OF ix] have sp: "?line = take eq ?line @ CHR ''='' # drop (Suc eq) ?line"
    and no: "CHR ''='' \<notin> set (take eq ?line)" by simp_all
  have a: "take eq ?line \<noteq> []" using ge ne by (cases ?line) auto
  have h: "hd (take eq ?line) \<noteq> CHR ''#''"
    using nc ge by (cases ?line) (auto simp: take_Suc_conv_app_nth hd_take)
  show "\<exists>a b. trim l = a @ CHR ''='' # b \<and> CHR ''='' \<notin> set a \<and> a \<noteq> []
        \<and> hd a \<noteq> CHR ''#'' \<and> trim a \<noteq> [] \<and> allDigits (trim b)
        \<and> f = \<lparr>name = trim a, number = normNumber big (trim b)\<rparr>"
    by (rule exI [of _ "take eq ?line"], rule exI [of _ "drop (Suc eq) ?line"])
       (use sp no a h nm dg f in simp)
next
  assume "\<exists>a b. trim l = a @ CHR ''='' # b \<and> CHR ''='' \<notin> set a \<and> a \<noteq> []
        \<and> hd a \<noteq> CHR ''#'' \<and> trim a \<noteq> [] \<and> allDigits (trim b)
        \<and> f = \<lparr>name = trim a, number = normNumber big (trim b)\<rparr>"
  then obtain a b where sp: "trim l = a @ CHR ''='' # b" and no: "CHR ''='' \<notin> set a"
    and a: "a \<noteq> []" and h: "hd a \<noteq> CHR ''#''" and nm: "trim a \<noteq> []"
    and dg: "allDigits (trim b)" and f: "f = \<lparr>name = trim a, number = normNumber big (trim b)\<rparr>"
    by blast
  have ix: "indexOf CHR ''='' (a @ CHR ''='' # b) = Some (length a)"
    using no by (rule indexOf_split)
  show "parseLine big l = Some f"
    unfolding parseLine_def sp Let_def ix using a h nm dg f by simp
qed

text \<open>
  Claim C9, as the code has it, for a maximum \<open>k\<close> that is an integer of at least 1
  (without a configured maximum, 30). The loader returns no favourite when the file
  cannot be read, and does not raise. Otherwise it returns the first \<open>k\<close> favourites
  of the valid lines, in file order; each line is judged alone, so a blank, comment or
  malformed line changes nothing for its neighbours. A line is valid exactly when,
  trimmed, it does not start with \<open>#\<close> and splits at its first \<open>=\<close> into a part whose
  trimmed text, the name, is not empty and a rest whose trimmed text is all digits. The
  number is stored as \<^verbatim>\<open>String(Number(...))\<close> prints it: with leading zeros
  stripped when it is below \<open>2^53\<close>.
\<close>

theorem loadFavourites_first_valid:
  "loadFavourites big mx None = ([], [LogLoadFailed])
   \<and> (1 \<le> k \<longrightarrow>
        fst (loadFavourites big (Some (real k)) (Some raw)) =
          take k (List.map_filter (parseLine big) (splitLines raw))
        \<and> length (fst (loadFavourites big (Some (real k)) (Some raw))) \<le> k)
   \<and> fst (loadFavourites big None (Some raw)) =
        take 30 (List.map_filter (parseLine big) (splitLines raw))
   \<and> ((parseLine big l = Some f) =
        (\<exists>a b. trim l = a @ CHR ''='' # b \<and> CHR ''='' \<notin> set a \<and> a \<noteq> []
           \<and> hd a \<noteq> CHR ''#'' \<and> trim a \<noteq> [] \<and> allDigits (trim b)
           \<and> f = \<lparr>name = trim a, number = normNumber big (trim b)\<rparr>))
   \<and> (allDigits s \<and> digitsValue s < 9007199254740992 \<longrightarrow> normNumber big s = stripZeros s)"
proof -
  have d: "fst (loadFavourites big None (Some raw)) =
        take 30 (List.map_filter (parseLine big) (splitLines raw))"
    using loadFavourites_take [of 30 big raw] by (simp add: loadFavourites_def)
  have n: "loadFavourites big mx None = ([], [LogLoadFailed])"
    by (simp add: loadFavourites_def)
  show ?thesis
    using n d loadFavourites_take [of k big raw] parseLine_iff [of big l f]
      normNumber_small [of s big]
    by simp
qed

theorem loadFavourites_first_valid_witness:
  "fst (loadFavourites noBig (Some (real 3)) (Some starter)) =
     [\<lparr>name = ''BBC One'', number = ''1''\<rparr>, \<lparr>name = ''BBC Two'', number = ''2''\<rparr>,
      \<lparr>name = ''ITV1'', number = ''3''\<rparr>]
   \<and> length (fst (loadFavourites noBig (Some (real 3)) (Some starter))) \<le> 3
   \<and> normNumber noBig ''007'' = ''7''"
proof -
  have k: "(1::nat) \<le> 3" by simp
  have t: "take 3 (List.map_filter (parseLine noBig) (splitLines starter)) =
     [\<lparr>name = ''BBC One'', number = ''1''\<rparr>, \<lparr>name = ''BBC Two'', number = ''2''\<rparr>,
      \<lparr>name = ''ITV1'', number = ''3''\<rparr>]"
    by (simp add: starter_def List.map_filter_simps parseLine_def string_eval)
  have s: "allDigits ''007'' \<and> digitsValue ''007'' < 9007199254740992"
    by (simp add: string_eval)
  have z: "stripZeros ''007'' = ''7''"
    by (simp add: stripZeros_def)
  from loadFavourites_first_valid [of noBig None 3 starter "[]" "\<lparr>name = [], number = []\<rparr>" "''007''"]
  have "fst (loadFavourites noBig (Some (real 3)) (Some starter)) =
          take 3 (List.map_filter (parseLine noBig) (splitLines starter))"
    and "length (fst (loadFavourites noBig (Some (real 3)) (Some starter))) \<le> 3"
    and "normNumber noBig ''007'' = stripZeros ''007''"
    using k s by simp_all
  then show ?thesis unfolding t z by simp
qed

text \<open>
  The claim as stated fails for a maximum below 1: the loop tests the length after it
  has pushed, so with a maximum of 0 the first valid line is returned.
\<close>

theorem loadFavourites_max_counterexample:
  "fst (loadFavourites noBig (Some 0) (Some ''A=1\<newline>B=2'')) = [\<lparr>name = ''A'', number = ''1''\<rparr>]
   \<and> \<not> real (length (fst (loadFavourites noBig (Some 0) (Some ''A=1\<newline>B=2'')))) \<le> 0"
  by (simp add: loadFavourites_def parseLine_def string_eval)

section \<open>Verification: capability rebuild\<close>

lemma svcKey_characteristics [simp]: "svcKey (s\<lparr>characteristics := c\<rparr>) = svcKey s"
  by (simp add: svcKey_def)

lemma svcKey_linkedServices [simp]: "svcKey (s\<lparr>linkedServices := l\<rparr>) = svcKey s"
  by (simp add: svcKey_def)

lemma favSubtype_eq [simp]: "(favSubtype a = favSubtype b) = (a = b)"
  by (simp add: favSubtype_def)

lemma favSubtype_nonempty [simp]: "favSubtype a \<noteq> []"
  by (simp add: favSubtype_def)

lemma info_setCharacteristic:
  "fst k \<noteq> AccessoryInformation \<Longrightarrow>
     filter (\<lambda>s. svcType s = AccessoryInformation) (setCharacteristic k c v svcs) =
     filter (\<lambda>s. svcType s = AccessoryInformation) svcs"
  by (induction svcs) (auto simp: setCharacteristic_def svcKey_def)

lemma info_configureInput:
  "fst k \<noteq> AccessoryInformation \<Longrightarrow>
     filter (\<lambda>s. svcType s = AccessoryInformation) (configureInput k i nm svcs) =
     filter (\<lambda>s. svcType s = AccessoryInformation) svcs"
  by (simp add: configureInput_def info_setCharacteristic)

lemma info_addLinkedService:
  "fst k \<noteq> AccessoryInformation \<Longrightarrow>
     filter (\<lambda>s. svcType s = AccessoryInformation) (addLinkedService k l svcs) =
     filter (\<lambda>s. svcType s = AccessoryInformation) svcs"
  by (induction svcs) (auto simp: addLinkedService_def svcKey_def)

lemma info_clearLinkedServices:
  "fst k \<noteq> AccessoryInformation \<Longrightarrow>
     filter (\<lambda>s. svcType s = AccessoryInformation) (clearLinkedServices k svcs) =
     filter (\<lambda>s. svcType s = AccessoryInformation) svcs"
  by (induction svcs) (auto simp: clearLinkedServices_def svcKey_def)

lemma allKeys_setCharacteristic: "map svcKey (setCharacteristic k c v svcs) = map svcKey svcs"
  by (induction svcs) (simp_all add: setCharacteristic_def)

lemma allKeys_configureInput: "map svcKey (configureInput k i nm svcs) = map svcKey svcs"
  by (simp add: configureInput_def allKeys_setCharacteristic)

lemma allKeys_addLinkedService: "map svcKey (addLinkedService k l svcs) = map svcKey svcs"
  by (induction svcs) (simp_all add: addLinkedService_def)

lemma allKeys_clearLinkedServices: "map svcKey (clearLinkedServices k svcs) = map svcKey svcs"
  by (induction svcs) (simp_all add: clearLinkedServices_def)

lemma filtered_keys:
  "map svcKey (filter (\<lambda>s. svcType s \<noteq> AccessoryInformation) svcs) =
     filter (\<lambda>k. fst k \<noteq> AccessoryInformation) (map svcKey svcs)"
  by (induction svcs) (simp_all add: svcKey_def)

lemma input_keys:
  "map svcKey (filter (\<lambda>s. svcType s = InputSource) svcs) =
     filter (\<lambda>k. fst k = InputSource) (map svcKey svcs)"
  by (induction svcs) (simp_all add: svcKey_def)

lemma servicesAdded_append: "servicesAdded (xs @ ys) = servicesAdded xs @ servicesAdded ys"
  by (simp add: servicesAdded_def)

lemma servicesRemoved_append: "servicesRemoved (xs @ ys) = servicesRemoved xs @ servicesRemoved ys"
  by (simp add: servicesRemoved_def)

lemma servicesAdded_removed: "servicesAdded (map (\<lambda>s. ServiceRemoved (f s)) xs) = []"
  by (induction xs) (simp_all add: servicesAdded_def)

lemma servicesRemoved_removed: "servicesRemoved (map (\<lambda>s. ServiceRemoved (f s)) xs) = map f xs"
  by (induction xs) (simp_all add: servicesRemoved_def)

lemma getServiceById_None:
  "(getServiceById ty sub svcs = None) = ((ty, Some sub) \<notin> set (map svcKey svcs))"
  by (auto simp: getServiceById_def find_None_iff svcKey_def)

text \<open>Adding a service that was looked up and not found fails at the limit only.\<close>

lemma addService_fresh:
  assumes "(ty, Some sub) \<notin> set (map svcKey svcs)" and "sub \<noteq> []"
  shows "addService (newService ty nm (Some sub)) svcs =
     (if 100 \<le> length svcs then Inl TooManyServices
      else Inr (svcs @ [newService ty nm (Some sub)]))"
proof -
  have "\<not> list_ex (\<lambda>e. svcType e = ty \<and> svcSubtype e = Some sub) svcs"
    using assms(1) by (auto simp: list_ex_iff svcKey_def image_iff)
  then show ?thesis using assms(2) by (simp add: addService_def newService_def)
qed

lemma addService_first:
  assumes "\<forall>s\<in>set svcs. svcType s \<noteq> ty"
  shows "addService (newService ty nm sub) svcs =
     (if 100 \<le> length svcs then Inl TooManyServices else Inr (svcs @ [newService ty nm sub]))"
proof -
  have "\<not> list_ex (\<lambda>e. svcType e = ty \<and>
          (sub = None \<or> sub = Some [] \<or> svcSubtype e = sub)) svcs"
    using assms by (auto simp: list_ex_iff)
  then show ?thesis by (simp add: addService_def newService_def)
qed

text \<open>One turn of the loop, for a favourite that is skipped and for one that is not.\<close>

lemma addFavourite_skip:
  assumes "\<not> (case favIdentifier (number fav) of None \<Rightarrow> False | Some i \<Rightarrow> 0 < i \<and> i \<le> 999)"
  shows "addFavourite tv fav acc = Inr acc"
  using assms by (cases acc) (auto simp: addFavourite_def split: option.splits)

lemma addFavourite_accept:
  assumes "favIdentifier (number fav) = Some i" and "0 < i" and "i \<le> 999"
  shows "addFavourite tv fav (svcs, inputs, table, evs) =
     (if (InputSource, Some (favSubtype (number fav))) \<in> set (map svcKey svcs)
      then Inr (addLinkedService tv (InputSource, Some (favSubtype (number fav)))
                  (configureInput (InputSource, Some (favSubtype (number fav))) i (name fav) svcs),
                inputs @ [(InputSource, Some (favSubtype (number fav)))],
                table(i \<mapsto> number fav), evs)
      else if 100 \<le> length svcs then Inl TooManyServices
      else Inr (addLinkedService tv (InputSource, Some (favSubtype (number fav)))
                  (configureInput (InputSource, Some (favSubtype (number fav))) i (name fav)
                     (svcs @ [newService InputSource (name fav) (Some (favSubtype (number fav)))])),
                inputs @ [(InputSource, Some (favSubtype (number fav)))],
                table(i \<mapsto> number fav),
                evs @ [ServiceAdded (InputSource, Some (favSubtype (number fav)))]))"
proof (cases "(InputSource, Some (favSubtype (number fav))) \<in> set (map svcKey svcs)")
  case True
  then have g: "(getServiceById InputSource (favSubtype (number fav)) svcs = None) = False"
    unfolding getServiceById_None by simp
  from True assms show ?thesis
    by (simp add: addFavourite_def Let_def g del: set_map)
next
  case False
  then have n: "getServiceById InputSource (favSubtype (number fav)) svcs = None"
    unfolding getServiceById_None by simp
  have a: "addService (newService InputSource (name fav) (Some (favSubtype (number fav)))) svcs =
     (if 100 \<le> length svcs then Inl TooManyServices
      else Inr (svcs @ [newService InputSource (name fav) (Some (favSubtype (number fav)))]))"
    by (rule addService_fresh [OF False favSubtype_nonempty])
  from False assms show ?thesis
    by (simp add: addFavourite_def Let_def n a del: set_map)
qed

lemma in_mapE:
  assumes "y \<in> set (map g xs)"
  obtains x where "x \<in> set xs" and "y = g x"
  using assms by auto

text \<open>What the turn does to each service of the accessory.\<close>

lemma turn_services:
  assumes "k \<noteq> tv"
  shows "addLinkedService tv k (configureInput k i nm svcs) =
     map (\<lambda>s. if svcKey s = k
              then s\<lparr>characteristics := (characteristics s)
                     (Identifier \<mapsto> CNumber i, ConfiguredName \<mapsto> CString (take 64 nm),
                      Name \<mapsto> CString (take 64 nm), IsConfigured \<mapsto> CNumber 1,
                      CurrentVisibilityState \<mapsto> CNumber 0, InputSourceType \<mapsto> CNumber 2)\<rparr>
              else if svcKey s = tv \<and> k \<notin> set (linkedServices s)
              then s\<lparr>linkedServices := linkedServices s @ [k]\<rparr>
              else s) svcs"
  using assms
  by (simp add: addLinkedService_def configureInput_def setCharacteristic_def validValue_def
        comp_def)

lemma addFavourites_snoc:
  "addFavourites tv (favs @ [h]) acc =
     (case addFavourites tv favs acc of Inl e \<Rightarrow> Inl e | Inr a \<Rightarrow> addFavourite tv h a)"
  by (induction favs arbitrary: acc) (simp_all split: sum.splits)

lemma addFavourites_induct:
  assumes run: "addFavourites tv favs acc0 = Inr acc"
    and base: "Q [] acc0"
    and step: "\<And>done h a a'. Q done a \<Longrightarrow> addFavourite tv h a = Inr a' \<Longrightarrow> Q (done @ [h]) a'"
  shows "Q favs acc"
  using run
proof (induction favs arbitrary: acc rule: rev_induct)
  case Nil
  with base show ?case by simp
next
  case (snoc h favs)
  from snoc.prems obtain a where a: "addFavourites tv favs acc0 = Inr a"
    and h: "addFavourite tv h a = Inr acc"
    by (auto simp: addFavourites_snoc split: sum.splits)
  from step [OF snoc.IH [OF a] h] show ?case .
qed


lemma addFavourite_cases:
  assumes "addFavourite tv h (svcs, inputs, table, evs) = Inr (svcs', inputs', table', evs')"
  obtains
    (skip) "\<not> (case favIdentifier (number h) of None \<Rightarrow> False | Some i \<Rightarrow> 0 < i \<and> i \<le> 999)"
      and "svcs' = svcs" and "inputs' = inputs" and "table' = table" and "evs' = evs"
  | (old) i where "favIdentifier (number h) = Some i" and "0 < i" and "i \<le> 999"
      and "(InputSource, Some (favSubtype (number h))) \<in> set (map svcKey svcs)"
      and "svcs' = addLinkedService tv (InputSource, Some (favSubtype (number h)))
             (configureInput (InputSource, Some (favSubtype (number h))) i (name h) svcs)"
      and "inputs' = inputs @ [(InputSource, Some (favSubtype (number h)))]"
      and "table' = table(i \<mapsto> number h)" and "evs' = evs"
  | (new) i where "favIdentifier (number h) = Some i" and "0 < i" and "i \<le> 999"
      and "(InputSource, Some (favSubtype (number h))) \<notin> set (map svcKey svcs)"
      and "length svcs < 100"
      and "svcs' = addLinkedService tv (InputSource, Some (favSubtype (number h)))
             (configureInput (InputSource, Some (favSubtype (number h))) i (name h)
                (svcs @ [newService InputSource (name h) (Some (favSubtype (number h)))]))"
      and "inputs' = inputs @ [(InputSource, Some (favSubtype (number h)))]"
      and "table' = table(i \<mapsto> number h)"
      and "evs' = evs @ [ServiceAdded (InputSource, Some (favSubtype (number h)))]"
proof (cases "case favIdentifier (number h) of None \<Rightarrow> False | Some i \<Rightarrow> 0 < i \<and> i \<le> 999")
  case False
  from addFavourite_skip [OF False, of tv "(svcs, inputs, table, evs)"] assms
  have "svcs' = svcs" "inputs' = inputs" "table' = table" "evs' = evs" by simp_all
  with False show thesis by (rule skip)
next
  case True
  then obtain i where i: "favIdentifier (number h) = Some i" "0 < i" "i \<le> 999"
    by (auto split: option.splits)
  note eq = addFavourite_accept [OF i, of tv svcs inputs table evs]
  show thesis
  proof (cases "(InputSource, Some (favSubtype (number h))) \<in> set (map svcKey svcs)")
    case True
    from assms have "svcs' = addLinkedService tv (InputSource, Some (favSubtype (number h)))
             (configureInput (InputSource, Some (favSubtype (number h))) i (name h) svcs)"
      and "inputs' = inputs @ [(InputSource, Some (favSubtype (number h)))]"
      and "table' = table(i \<mapsto> number h)" and "evs' = evs"
      unfolding eq if_P [OF True] by simp_all
    with i True show thesis by (rule old)
  next
    case False
    from assms have l: "length svcs < 100"
      unfolding eq if_not_P [OF False] by (simp split: if_splits)
    then have l': "\<not> 100 \<le> length svcs" by simp
    from assms have "svcs' = addLinkedService tv (InputSource, Some (favSubtype (number h)))
             (configureInput (InputSource, Some (favSubtype (number h))) i (name h)
                (svcs @ [newService InputSource (name h) (Some (favSubtype (number h)))]))"
      and "inputs' = inputs @ [(InputSource, Some (favSubtype (number h)))]"
      and "table' = table(i \<mapsto> number h)"
      and "evs' = evs @ [ServiceAdded (InputSource, Some (favSubtype (number h)))]"
      unfolding eq if_not_P [OF False] if_not_P [OF l'] by simp_all
    with i False l show thesis by (rule new)
  qed
qed

text \<open>The turn leaves the information services alone, and every service it adds is reported.\<close>

lemma addFavourite_info:
  assumes "addFavourite tv h (svcs, inputs, table, evs) = Inr (svcs', inputs', table', evs')"
    and "fst tv \<noteq> AccessoryInformation"
  shows "filter (\<lambda>s. svcType s = AccessoryInformation) svcs' =
         filter (\<lambda>s. svcType s = AccessoryInformation) svcs"
  using assms(1)
  by (cases rule: addFavourite_cases)
     (simp_all add: info_addLinkedService info_configureInput assms(2) newService_def)

lemma addFavourite_keys:
  assumes "addFavourite tv h (svcs, inputs, table, evs) = Inr (svcs', inputs', table', evs')"
    and "filter (\<lambda>k. fst k \<noteq> AccessoryInformation) (map svcKey svcs) = servicesAdded evs"
  shows "filter (\<lambda>k. fst k \<noteq> AccessoryInformation) (map svcKey svcs') = servicesAdded evs'"
    and "servicesRemoved evs' = servicesRemoved evs"
  using assms(1)
  by (cases rule: addFavourite_cases;
      simp add: allKeys_addLinkedService allKeys_configureInput assms(2) newService_def svcKey_def
        servicesAdded_append servicesRemoved_append;
      simp add: servicesAdded_def servicesRemoved_def)+

lemma addFavourites_info_keys:
  assumes run: "addFavourites tv favs (svcs0, inputs0, table0, evs0) = Inr (svcs, inputs, table, evs)"
    and tv: "fst tv \<noteq> AccessoryInformation"
    and start: "filter (\<lambda>k. fst k \<noteq> AccessoryInformation) (map svcKey svcs0) = servicesAdded evs0"
  shows "filter (\<lambda>s. svcType s = AccessoryInformation) svcs =
         filter (\<lambda>s. svcType s = AccessoryInformation) svcs0
       \<and> filter (\<lambda>k. fst k \<noteq> AccessoryInformation) (map svcKey svcs) = servicesAdded evs
       \<and> servicesRemoved evs = servicesRemoved evs0"
proof -
  have "case (svcs, inputs, table, evs) of (s, i, t, e) \<Rightarrow>
          filter (\<lambda>s. svcType s = AccessoryInformation) s =
            filter (\<lambda>s. svcType s = AccessoryInformation) svcs0
          \<and> filter (\<lambda>k. fst k \<noteq> AccessoryInformation) (map svcKey s) = servicesAdded e
          \<and> servicesRemoved e = servicesRemoved evs0"
  proof (rule addFavourites_induct [OF run, where Q = "\<lambda>done acc. case acc of (s, i, t, e) \<Rightarrow>
          filter (\<lambda>s. svcType s = AccessoryInformation) s =
            filter (\<lambda>s. svcType s = AccessoryInformation) svcs0
          \<and> filter (\<lambda>k. fst k \<noteq> AccessoryInformation) (map svcKey s) = servicesAdded e
          \<and> servicesRemoved e = servicesRemoved evs0"])
    show "case (svcs0, inputs0, table0, evs0) of (s, i, t, e) \<Rightarrow>
          filter (\<lambda>s. svcType s = AccessoryInformation) s =
            filter (\<lambda>s. svcType s = AccessoryInformation) svcs0
          \<and> filter (\<lambda>k. fst k \<noteq> AccessoryInformation) (map svcKey s) = servicesAdded e
          \<and> servicesRemoved e = servicesRemoved evs0"
      using start by simp
  next
    fix "done" :: "favourite list" and h a a'
    assume q: "case a of (s, i, t, e) \<Rightarrow>
          filter (\<lambda>s. svcType s = AccessoryInformation) s =
            filter (\<lambda>s. svcType s = AccessoryInformation) svcs0
          \<and> filter (\<lambda>k. fst k \<noteq> AccessoryInformation) (map svcKey s) = servicesAdded e
          \<and> servicesRemoved e = servicesRemoved evs0"
      and s: "addFavourite tv h a = Inr a'"
    obtain s1 i1 t1 e1 where a: "a = (s1, i1, t1, e1)" by (metis prod_cases4)
    obtain s2 i2 t2 e2 where a': "a' = (s2, i2, t2, e2)" by (metis prod_cases4)
    from s have s': "addFavourite tv h (s1, i1, t1, e1) = Inr (s2, i2, t2, e2)" unfolding a a' .
    from q have q1: "filter (\<lambda>s. svcType s = AccessoryInformation) s1 =
            filter (\<lambda>s. svcType s = AccessoryInformation) svcs0"
      and q2: "filter (\<lambda>k. fst k \<noteq> AccessoryInformation) (map svcKey s1) = servicesAdded e1"
      and q3: "servicesRemoved e1 = servicesRemoved evs0"
      unfolding a by simp_all
    show "case a' of (s, i, t, e) \<Rightarrow>
          filter (\<lambda>s. svcType s = AccessoryInformation) s =
            filter (\<lambda>s. svcType s = AccessoryInformation) svcs0
          \<and> filter (\<lambda>k. fst k \<noteq> AccessoryInformation) (map svcKey s) = servicesAdded e
          \<and> servicesRemoved e = servicesRemoved evs0"
      unfolding a'
      using addFavourite_info [OF s' tv] addFavourite_keys [OF s' q2] q1 q3 by simp
  qed
  then show ?thesis by simp
qed


lemma addFavourites_induct4:
  assumes run: "addFavourites tv favs (s0, i0, t0, e0) = Inr (s, i, t, e)"
    and base: "Q [] s0 i0 t0 e0"
    and step: "\<And>done h s1 i1 t1 e1 s2 i2 t2 e2.
       Q done s1 i1 t1 e1 \<Longrightarrow> addFavourite tv h (s1, i1, t1, e1) = Inr (s2, i2, t2, e2) \<Longrightarrow>
       Q (done @ [h]) s2 i2 t2 e2"
  shows "Q favs s i t e"
proof -
  have "case (s, i, t, e) of (a, b, c, d) \<Rightarrow> Q favs a b c d"
  proof (rule addFavourites_induct [OF run,
        where Q = "\<lambda>done acc. case acc of (a, b, c, d) \<Rightarrow> Q done a b c d"])
    show "case (s0, i0, t0, e0) of (a, b, c, d) \<Rightarrow> Q [] a b c d" using base by simp
  next
    fix "done" :: "favourite list" and h x x'
    assume q: "case x of (a, b, c, d) \<Rightarrow> Q done a b c d" and s: "addFavourite tv h x = Inr x'"
    obtain s1 i1 t1 e1 where x: "x = (s1, i1, t1, e1)" by (metis prod_cases4)
    obtain s2 i2 t2 e2 where x': "x' = (s2, i2, t2, e2)" by (metis prod_cases4)
    from q have "Q done s1 i1 t1 e1" unfolding x by simp
    from step [OF this s [unfolded x x']]
    show "case x' of (a, b, c, d) \<Rightarrow> Q (done @ [h]) a b c d" unfolding x' by simp
  qed
  then show ?thesis by simp
qed

text \<open>
  The inputs of the accessory after the loop: one for each favourite that is not
  skipped, no two with the same subtype.
\<close>

lemma addFavourites_inputs:
  assumes run: "addFavourites tv favs (s0, [], t0, e0) = Inr (s, i, t, e)"
    and d0: "distinct (filter (\<lambda>k. fst k \<noteq> AccessoryInformation) (map svcKey s0))"
    and n0: "\<forall>k\<in>set (map svcKey s0). fst k \<noteq> InputSource"
  shows "distinct (filter (\<lambda>k. fst k \<noteq> AccessoryInformation) (map svcKey s))
       \<and> {k \<in> set (map svcKey s). fst k = InputSource} = set i
       \<and> i = map (\<lambda>f. (InputSource, Some (favSubtype (number f))))
               (filter (\<lambda>f. case favIdentifier (number f) of None \<Rightarrow> False
                             | Some i \<Rightarrow> 0 < i \<and> i \<le> 999) favs)
       \<and> filter (\<lambda>k. fst k \<noteq> InputSource) (map svcKey s) = map svcKey s0"
proof (rule addFavourites_induct4 [OF run, where Q = "\<lambda>done s i t e.
       distinct (filter (\<lambda>k. fst k \<noteq> AccessoryInformation) (map svcKey s))
       \<and> {k \<in> set (map svcKey s). fst k = InputSource} = set i
       \<and> i = map (\<lambda>f. (InputSource, Some (favSubtype (number f))))
               (filter (\<lambda>f. case favIdentifier (number f) of None \<Rightarrow> False
                             | Some i \<Rightarrow> 0 < i \<and> i \<le> 999) done)
       \<and> filter (\<lambda>k. fst k \<noteq> InputSource) (map svcKey s) = map svcKey s0"])
  have f: "filter (\<lambda>k. fst k \<noteq> InputSource) (map svcKey s0) = map svcKey s0"
    using n0 by (simp add: filter_id_conv)
  have e: "{k \<in> set (map svcKey s0). fst k = InputSource} = set []"
    using n0 by fastforce
  show "distinct (filter (\<lambda>k. fst k \<noteq> AccessoryInformation) (map svcKey s0))
       \<and> {k \<in> set (map svcKey s0). fst k = InputSource} = set []
       \<and> [] = map (\<lambda>f. (InputSource, Some (favSubtype (number f))))
               (filter (\<lambda>f. case favIdentifier (number f) of None \<Rightarrow> False
                             | Some i \<Rightarrow> 0 < i \<and> i \<le> 999) [])
       \<and> filter (\<lambda>k. fst k \<noteq> InputSource) (map svcKey s0) = map svcKey s0"
    using d0 e f by simp
next
  fix "done" :: "favourite list" and h s1 i1 t1 e1 s2 i2 t2 e2
  assume q: "distinct (filter (\<lambda>k. fst k \<noteq> AccessoryInformation) (map svcKey s1))
       \<and> {k \<in> set (map svcKey s1). fst k = InputSource} = set i1
       \<and> i1 = map (\<lambda>f. (InputSource, Some (favSubtype (number f))))
               (filter (\<lambda>f. case favIdentifier (number f) of None \<Rightarrow> False
                             | Some i \<Rightarrow> 0 < i \<and> i \<le> 999) done)
       \<and> filter (\<lambda>k. fst k \<noteq> InputSource) (map svcKey s1) = map svcKey s0"
    and st: "addFavourite tv h (s1, i1, t1, e1) = Inr (s2, i2, t2, e2)"
  define k where "k = (InputSource, Some (favSubtype (number h)))"
  from q have q1: "distinct (filter (\<lambda>k. fst k \<noteq> AccessoryInformation) (map svcKey s1))"
    and q2: "{k \<in> set (map svcKey s1). fst k = InputSource} = set i1"
    and q3: "i1 = map (\<lambda>f. (InputSource, Some (favSubtype (number f))))
               (filter (\<lambda>f. case favIdentifier (number f) of None \<Rightarrow> False
                             | Some i \<Rightarrow> 0 < i \<and> i \<le> 999) done)"
    and q4: "filter (\<lambda>k. fst k \<noteq> InputSource) (map svcKey s1) = map svcKey s0"
    by blast+
  have fk: "fst k = InputSource" "fst k \<noteq> AccessoryInformation" by (simp_all add: k_def)
  from st show "distinct (filter (\<lambda>k. fst k \<noteq> AccessoryInformation) (map svcKey s2))
       \<and> {k \<in> set (map svcKey s2). fst k = InputSource} = set i2
       \<and> i2 = map (\<lambda>f. (InputSource, Some (favSubtype (number f))))
               (filter (\<lambda>f. case favIdentifier (number f) of None \<Rightarrow> False
                             | Some i \<Rightarrow> 0 < i \<and> i \<le> 999) (done @ [h]))
       \<and> filter (\<lambda>k. fst k \<noteq> InputSource) (map svcKey s2) = map svcKey s0"
  proof (cases rule: addFavourite_cases)
    case skip
    with q show ?thesis by simp
  next
    case (old j)
    have keys: "map svcKey s2 = map svcKey s1"
      unfolding old(5) by (simp add: allKeys_addLinkedService allKeys_configureInput)
    have qual: "(case favIdentifier (number h) of None \<Rightarrow> False | Some i \<Rightarrow> 0 < i \<and> i \<le> 999)"
      using old(1-3) by simp
    have mem: "k \<in> set (map svcKey s1)" using old(4) unfolding k_def .
    have i2: "i2 = i1 @ [k]" using old(6) unfolding k_def .
    have "{x \<in> set (map svcKey s1). fst x = InputSource} = set (i1 @ [k])"
      using q2 mem fk by auto
    moreover have "i1 @ [k] = map (\<lambda>f. (InputSource, Some (favSubtype (number f))))
               (filter (\<lambda>f. case favIdentifier (number f) of None \<Rightarrow> False
                             | Some i \<Rightarrow> 0 < i \<and> i \<le> 999) (done @ [h]))"
      using q3 qual unfolding k_def by simp
    ultimately show ?thesis unfolding keys i2 using q1 q4 by blast
  next
    case (new j)
    have keys: "map svcKey s2 = map svcKey s1 @ [k]"
      unfolding new(6) k_def
      by (simp add: allKeys_addLinkedService allKeys_configureInput newService_def svcKey_def)
    have qual: "(case favIdentifier (number h) of None \<Rightarrow> False | Some i \<Rightarrow> 0 < i \<and> i \<le> 999)"
      using new(1-3) by simp
    have mem: "k \<notin> set (map svcKey s1)" using new(4) unfolding k_def .
    have i2: "i2 = i1 @ [k]" using new(7) unfolding k_def .
    have a: "distinct (filter (\<lambda>k. fst k \<noteq> AccessoryInformation) (map svcKey s1 @ [k]))"
      using q1 mem by simp
    have b: "{x \<in> set (map svcKey s1 @ [k]). fst x = InputSource} = set (i1 @ [k])"
      using q2 fk by auto
    have c: "i1 @ [k] = map (\<lambda>f. (InputSource, Some (favSubtype (number f))))
               (filter (\<lambda>f. case favIdentifier (number f) of None \<Rightarrow> False
                             | Some i \<Rightarrow> 0 < i \<and> i \<le> 999) (done @ [h]))"
      using q3 qual unfolding k_def by simp
    have d: "filter (\<lambda>k. fst k \<noteq> InputSource) (map svcKey s1 @ [k]) = map svcKey s0"
      using q4 fk by simp
    show ?thesis unfolding keys i2 by (intro conjI a b c d)
  qed
qed


text \<open>
  The characteristics of the inputs after the loop: the identifier is the number of the
  favourite, the names are those of the last favourite with that number.
\<close>

lemma addFavourites_characteristics:
  assumes run: "addFavourites tv favs (s0, i0, t0, e0) = Inr (s, i, t, e)"
    and tv: "fst tv \<noteq> InputSource"
    and n0: "\<forall>x\<in>set s0. fst (svcKey x) \<noteq> InputSource"
  shows "\<forall>x\<in>set s. \<forall>n. svcKey x = (InputSource, Some (favSubtype n)) \<longrightarrow>
           (\<exists>j. favIdentifier n = Some j \<and> 0 < j \<and> j \<le> 999
                \<and> characteristics x Identifier = Some (CNumber j))
         \<and> characteristics x ConfiguredName =
             Some (CString (take 64 (name (last (filter (\<lambda>f. number f = n) favs)))))
         \<and> characteristics x Name =
             Some (CString (take 64 (name (last (filter (\<lambda>f. number f = n) favs)))))
         \<and> characteristics x IsConfigured = Some (CNumber 1)
         \<and> characteristics x CurrentVisibilityState = Some (CNumber 0)
         \<and> characteristics x InputSourceType = Some (CNumber 2)"
proof (rule addFavourites_induct4 [OF run, where Q = "\<lambda>done s i t e.
         \<forall>x\<in>set s. \<forall>n. svcKey x = (InputSource, Some (favSubtype n)) \<longrightarrow>
           (\<exists>j. favIdentifier n = Some j \<and> 0 < j \<and> j \<le> 999
                \<and> characteristics x Identifier = Some (CNumber j))
         \<and> characteristics x ConfiguredName =
             Some (CString (take 64 (name (last (filter (\<lambda>f. number f = n) done)))))
         \<and> characteristics x Name =
             Some (CString (take 64 (name (last (filter (\<lambda>f. number f = n) done)))))
         \<and> characteristics x IsConfigured = Some (CNumber 1)
         \<and> characteristics x CurrentVisibilityState = Some (CNumber 0)
         \<and> characteristics x InputSourceType = Some (CNumber 2)"])
  show "\<forall>x\<in>set s0. \<forall>n. svcKey x = (InputSource, Some (favSubtype n)) \<longrightarrow>
           (\<exists>j. favIdentifier n = Some j \<and> 0 < j \<and> j \<le> 999
                \<and> characteristics x Identifier = Some (CNumber j))
         \<and> characteristics x ConfiguredName =
             Some (CString (take 64 (name (last (filter (\<lambda>f. number f = n) [])))))
         \<and> characteristics x Name =
             Some (CString (take 64 (name (last (filter (\<lambda>f. number f = n) [])))))
         \<and> characteristics x IsConfigured = Some (CNumber 1)
         \<and> characteristics x CurrentVisibilityState = Some (CNumber 0)
         \<and> characteristics x InputSourceType = Some (CNumber 2)"
    using n0 by fastforce
next
  fix "done" :: "favourite list" and h s1 i1 t1 e1 s2 i2 t2 e2
  assume q: "\<forall>x\<in>set s1. \<forall>n. svcKey x = (InputSource, Some (favSubtype n)) \<longrightarrow>
           (\<exists>j. favIdentifier n = Some j \<and> 0 < j \<and> j \<le> 999
                \<and> characteristics x Identifier = Some (CNumber j))
         \<and> characteristics x ConfiguredName =
             Some (CString (take 64 (name (last (filter (\<lambda>f. number f = n) done)))))
         \<and> characteristics x Name =
             Some (CString (take 64 (name (last (filter (\<lambda>f. number f = n) done)))))
         \<and> characteristics x IsConfigured = Some (CNumber 1)
         \<and> characteristics x CurrentVisibilityState = Some (CNumber 0)
         \<and> characteristics x InputSourceType = Some (CNumber 2)"
    and st: "addFavourite tv h (s1, i1, t1, e1) = Inr (s2, i2, t2, e2)"
  have goal: "(\<exists>j. favIdentifier n = Some j \<and> 0 < j \<and> j \<le> 999
                \<and> characteristics y Identifier = Some (CNumber j))
         \<and> characteristics y ConfiguredName =
             Some (CString (take 64 (name (last (filter (\<lambda>f. number f = n) (done @ [h]))))))
         \<and> characteristics y Name =
             Some (CString (take 64 (name (last (filter (\<lambda>f. number f = n) (done @ [h]))))))
         \<and> characteristics y IsConfigured = Some (CNumber 1)
         \<and> characteristics y CurrentVisibilityState = Some (CNumber 0)
         \<and> characteristics y InputSourceType = Some (CNumber 2)"
    if y: "y \<in> set s2" and ky: "svcKey y = (InputSource, Some (favSubtype n))" for y n
    using st
  proof (cases rule: addFavourite_cases)
    case skip
    from y ky q skip(2)
    have old: "(\<exists>j. favIdentifier n = Some j \<and> 0 < j \<and> j \<le> 999
                \<and> characteristics y Identifier = Some (CNumber j))
         \<and> characteristics y ConfiguredName =
             Some (CString (take 64 (name (last (filter (\<lambda>f. number f = n) done)))))
         \<and> characteristics y Name =
             Some (CString (take 64 (name (last (filter (\<lambda>f. number f = n) done)))))
         \<and> characteristics y IsConfigured = Some (CNumber 1)
         \<and> characteristics y CurrentVisibilityState = Some (CNumber 0)
         \<and> characteristics y InputSourceType = Some (CNumber 2)"
      by blast
    then have "number h \<noteq> n" using skip(1) by auto
    with old show ?thesis by simp
  next
    case (old j)
    define k where "k = (InputSource, Some (favSubtype (number h)))"
    have ktv: "k \<noteq> tv" using tv unfolding k_def by auto
    note m = turn_services [OF ktv, of j "name h" s1]
    from y obtain x where x: "x \<in> set s1" and yx: "y =
       (if svcKey x = k
        then x\<lparr>characteristics := (characteristics x)
               (Identifier \<mapsto> CNumber j, ConfiguredName \<mapsto> CString (take 64 (name h)),
                Name \<mapsto> CString (take 64 (name h)), IsConfigured \<mapsto> CNumber 1,
                CurrentVisibilityState \<mapsto> CNumber 0, InputSourceType \<mapsto> CNumber 2)\<rparr>
        else if svcKey x = tv \<and> k \<notin> set (linkedServices x)
        then x\<lparr>linkedServices := linkedServices x @ [k]\<rparr>
        else x)"
      unfolding old(5) k_def [symmetric] m by (rule in_mapE)
    have kx: "svcKey x = (InputSource, Some (favSubtype n))" using ky yx by (simp split: if_splits)
    show ?thesis
    proof (cases "n = number h")
      case True
      then have "svcKey x = k" using kx unfolding k_def by simp
      then show ?thesis using yx old(1-3) True by simp
    next
      case False
      then have nk: "svcKey x \<noteq> k" using kx unfolding k_def by simp
      then have c: "characteristics y = characteristics x" using yx by simp
      from x kx q
      have "(\<exists>j. favIdentifier n = Some j \<and> 0 < j \<and> j \<le> 999
                \<and> characteristics x Identifier = Some (CNumber j))
         \<and> characteristics x ConfiguredName =
             Some (CString (take 64 (name (last (filter (\<lambda>f. number f = n) done)))))
         \<and> characteristics x Name =
             Some (CString (take 64 (name (last (filter (\<lambda>f. number f = n) done)))))
         \<and> characteristics x IsConfigured = Some (CNumber 1)
         \<and> characteristics x CurrentVisibilityState = Some (CNumber 0)
         \<and> characteristics x InputSourceType = Some (CNumber 2)"
        by blast
      then show ?thesis unfolding c using False by simp
    qed
  next
    case (new j)
    define k where "k = (InputSource, Some (favSubtype (number h)))"
    define fresh where "fresh = newService InputSource (name h) (Some (favSubtype (number h)))"
    have kf: "svcKey fresh = k" by (simp add: fresh_def k_def newService_def svcKey_def)
    have ktv: "k \<noteq> tv" using tv unfolding k_def by auto
    note m = turn_services [OF ktv, of j "name h" "s1 @ [fresh]"]
    from y obtain x where x: "x \<in> set (s1 @ [fresh])" and yx: "y =
       (if svcKey x = k
        then x\<lparr>characteristics := (characteristics x)
               (Identifier \<mapsto> CNumber j, ConfiguredName \<mapsto> CString (take 64 (name h)),
                Name \<mapsto> CString (take 64 (name h)), IsConfigured \<mapsto> CNumber 1,
                CurrentVisibilityState \<mapsto> CNumber 0, InputSourceType \<mapsto> CNumber 2)\<rparr>
        else if svcKey x = tv \<and> k \<notin> set (linkedServices x)
        then x\<lparr>linkedServices := linkedServices x @ [k]\<rparr>
        else x)"
      unfolding new(6) k_def [symmetric] fresh_def [symmetric] m by (rule in_mapE)
    have kx: "svcKey x = (InputSource, Some (favSubtype n))" using ky yx by (simp split: if_splits)
    show ?thesis
    proof (cases "n = number h")
      case True
      then have "svcKey x = k" using kx unfolding k_def by simp
      then show ?thesis using yx new(1-3) True by simp
    next
      case False
      then have nk: "svcKey x \<noteq> k" using kx unfolding k_def by simp
      then have c: "characteristics y = characteristics x" using yx by simp
      from nk kf x have "x \<in> set s1" by auto
      with kx q
      have "(\<exists>j. favIdentifier n = Some j \<and> 0 < j \<and> j \<le> 999
                \<and> characteristics x Identifier = Some (CNumber j))
         \<and> characteristics x ConfiguredName =
             Some (CString (take 64 (name (last (filter (\<lambda>f. number f = n) done)))))
         \<and> characteristics x Name =
             Some (CString (take 64 (name (last (filter (\<lambda>f. number f = n) done)))))
         \<and> characteristics x IsConfigured = Some (CNumber 1)
         \<and> characteristics x CurrentVisibilityState = Some (CNumber 0)
         \<and> characteristics x InputSourceType = Some (CNumber 2)"
        by blast
      then show ?thesis unfolding c using False by simp
    qed
  qed
  then show "\<forall>x\<in>set s2. \<forall>n. svcKey x = (InputSource, Some (favSubtype n)) \<longrightarrow>
           (\<exists>j. favIdentifier n = Some j \<and> 0 < j \<and> j \<le> 999
                \<and> characteristics x Identifier = Some (CNumber j))
         \<and> characteristics x ConfiguredName =
             Some (CString (take 64 (name (last (filter (\<lambda>f. number f = n) (done @ [h]))))))
         \<and> characteristics x Name =
             Some (CString (take 64 (name (last (filter (\<lambda>f. number f = n) (done @ [h]))))))
         \<and> characteristics x IsConfigured = Some (CNumber 1)
         \<and> characteristics x CurrentVisibilityState = Some (CNumber 0)
         \<and> characteristics x InputSourceType = Some (CNumber 2)"
    by blast
qed

text \<open>The table after the loop: an identifier has the number of the last favourite with it.\<close>

lemma addFavourites_table:
  assumes run: "addFavourites tv favs (s0, i0, Map.empty, e0) = Inr (s, i, t, e)"
  shows "t j = (let fs = filter (\<lambda>f. favIdentifier (number f) = Some j \<and> 0 < j \<and> j \<le> 999) favs
                in if fs = [] then None else Some (number (last fs)))"
proof -
  have "\<forall>j. t j = (let fs = filter (\<lambda>f. favIdentifier (number f) = Some j \<and> 0 < j \<and> j \<le> 999) favs
                in if fs = [] then None else Some (number (last fs)))"
  proof (rule addFavourites_induct4 [OF run, where Q = "\<lambda>done s i t e.
      \<forall>j. t j = (let fs = filter (\<lambda>f. favIdentifier (number f) = Some j \<and> 0 < j \<and> j \<le> 999) done
                in if fs = [] then None else Some (number (last fs)))"])
    show "\<forall>j. Map.empty j =
       (let fs = filter (\<lambda>f. favIdentifier (number f) = Some j \<and> 0 < j \<and> j \<le> 999) []
        in if fs = [] then None else Some (number (last fs)))"
      by simp
  next
    fix "done" :: "favourite list" and h s1 i1 and t1 :: "int \<rightharpoonup> string" and e1 s2 i2 t2 e2
    assume q: "\<forall>j. t1 j =
       (let fs = filter (\<lambda>f. favIdentifier (number f) = Some j \<and> 0 < j \<and> j \<le> 999) done
        in if fs = [] then None else Some (number (last fs)))"
      and st: "addFavourite tv h (s1, i1, t1, e1) = Inr (s2, i2, t2, e2)"
    from st show "\<forall>j. t2 j =
       (let fs = filter (\<lambda>f. favIdentifier (number f) = Some j \<and> 0 < j \<and> j \<le> 999) (done @ [h])
        in if fs = [] then None else Some (number (last fs)))"
    proof (cases rule: addFavourite_cases)
      case skip
      then have np: "\<not> (favIdentifier (number h) = Some j \<and> 0 < j \<and> j \<le> 999)" for j by auto
      have f: "filter (\<lambda>f. favIdentifier (number f) = Some j \<and> 0 < j \<and> j \<le> 999) (done @ [h]) =
               filter (\<lambda>f. favIdentifier (number f) = Some j \<and> 0 < j \<and> j \<le> 999) done" for j
        using np [of j] by auto
      show ?thesis unfolding f skip(4) by (rule q)
    next
      case (old j)
      with q show ?thesis by (simp add: Let_def)
    next
      case (new j)
      with q show ?thesis by (simp add: Let_def)
    qed
  qed
  then show ?thesis by blast
qed

text \<open>The links of the Television service after the loop: the inputs, each once.\<close>

lemma addFavourites_links:
  assumes run: "addFavourites tv favs (s0, i0, t0, e0) = Inr (s, i, t, e)"
    and tv: "fst tv \<noteq> InputSource"
    and n0: "\<forall>x\<in>set s0. fst (svcKey x) \<noteq> InputSource"
    and l0: "\<forall>x\<in>set s0. svcKey x = tv \<longrightarrow> linkedServices x = []"
  shows "\<forall>x\<in>set s. svcKey x = tv \<longrightarrow>
           linkedServices x = filter (\<lambda>k. fst k = InputSource) (map svcKey s)"
proof (rule addFavourites_induct4 [OF run, where Q = "\<lambda>done s i t e.
         \<forall>x\<in>set s. svcKey x = tv \<longrightarrow>
           linkedServices x = filter (\<lambda>k. fst k = InputSource) (map svcKey s)"])
  have "filter (\<lambda>k. fst k = InputSource) (map svcKey s0) = []"
    using n0 by (simp add: filter_empty_conv)
  with l0 show "\<forall>x\<in>set s0. svcKey x = tv \<longrightarrow>
           linkedServices x = filter (\<lambda>k. fst k = InputSource) (map svcKey s0)"
    by simp
next
  fix "done" :: "favourite list" and h s1 i1 t1 e1 s2 i2 t2 e2
  assume q: "\<forall>x\<in>set s1. svcKey x = tv \<longrightarrow>
           linkedServices x = filter (\<lambda>k. fst k = InputSource) (map svcKey s1)"
    and st: "addFavourite tv h (s1, i1, t1, e1) = Inr (s2, i2, t2, e2)"
  from st show "\<forall>x\<in>set s2. svcKey x = tv \<longrightarrow>
           linkedServices x = filter (\<lambda>k. fst k = InputSource) (map svcKey s2)"
  proof (cases rule: addFavourite_cases)
    case skip
    with q show ?thesis by simp
  next
    case (old j)
    define k where "k = (InputSource, Some (favSubtype (number h)))"
    have ktv: "k \<noteq> tv" using tv unfolding k_def by auto
    have fk: "fst k = InputSource" by (simp add: k_def)
    have mem: "k \<in> set (map svcKey s1)" using old(4) unfolding k_def .
    have keys: "map svcKey s2 = map svcKey s1"
      unfolding old(5) by (simp add: allKeys_addLinkedService allKeys_configureInput)
    note m = turn_services [OF ktv, of j "name h" s1]
    show ?thesis
    proof (intro ballI impI)
      fix y assume y: "y \<in> set s2" and ky: "svcKey y = tv"
      from y obtain x where x: "x \<in> set s1" and yx: "y =
         (if svcKey x = k
          then x\<lparr>characteristics := (characteristics x)
                 (Identifier \<mapsto> CNumber j, ConfiguredName \<mapsto> CString (take 64 (name h)),
                  Name \<mapsto> CString (take 64 (name h)), IsConfigured \<mapsto> CNumber 1,
                  CurrentVisibilityState \<mapsto> CNumber 0, InputSourceType \<mapsto> CNumber 2)\<rparr>
          else if svcKey x = tv \<and> k \<notin> set (linkedServices x)
          then x\<lparr>linkedServices := linkedServices x @ [k]\<rparr>
          else x)"
        unfolding old(5) k_def [symmetric] m by (rule in_mapE)
      have kx: "svcKey x = tv" using ky yx by (simp split: if_splits)
      with x q have lx: "linkedServices x = filter (\<lambda>k. fst k = InputSource) (map svcKey s1)"
        by blast
      have "k \<in> set (linkedServices x)" unfolding lx using mem fk by simp
      with yx kx ktv have "y = x" by simp
      with lx show "linkedServices y = filter (\<lambda>k. fst k = InputSource) (map svcKey s2)"
        unfolding keys by simp
    qed
  next
    case (new j)
    define k where "k = (InputSource, Some (favSubtype (number h)))"
    define fresh where "fresh = newService InputSource (name h) (Some (favSubtype (number h)))"
    have kf: "svcKey fresh = k" by (simp add: fresh_def k_def newService_def svcKey_def)
    have ktv: "k \<noteq> tv" using tv unfolding k_def by auto
    have fk: "fst k = InputSource" by (simp add: k_def)
    have mem: "k \<notin> set (map svcKey s1)" using new(4) unfolding k_def .
    have keys: "map svcKey s2 = map svcKey s1 @ [k]"
      unfolding new(6) k_def
      by (simp add: allKeys_addLinkedService allKeys_configureInput newService_def svcKey_def)
    note m = turn_services [OF ktv, of j "name h" "s1 @ [fresh]"]
    show ?thesis
    proof (intro ballI impI)
      fix y assume y: "y \<in> set s2" and ky: "svcKey y = tv"
      from y obtain x where x: "x \<in> set (s1 @ [fresh])" and yx: "y =
         (if svcKey x = k
          then x\<lparr>characteristics := (characteristics x)
                 (Identifier \<mapsto> CNumber j, ConfiguredName \<mapsto> CString (take 64 (name h)),
                  Name \<mapsto> CString (take 64 (name h)), IsConfigured \<mapsto> CNumber 1,
                  CurrentVisibilityState \<mapsto> CNumber 0, InputSourceType \<mapsto> CNumber 2)\<rparr>
          else if svcKey x = tv \<and> k \<notin> set (linkedServices x)
          then x\<lparr>linkedServices := linkedServices x @ [k]\<rparr>
          else x)"
        unfolding new(6) k_def [symmetric] fresh_def [symmetric] m by (rule in_mapE)
      have kx: "svcKey x = tv" using ky yx by (simp split: if_splits)
      with kf ktv x have "x \<in> set s1" by auto
      with kx q have lx: "linkedServices x = filter (\<lambda>k. fst k = InputSource) (map svcKey s1)"
        by blast
      have "k \<notin> set (linkedServices x)" unfolding lx using mem by simp
      with yx kx ktv have "linkedServices y = linkedServices x @ [k]" by simp
      then show "linkedServices y = filter (\<lambda>k. fst k = InputSource) (map svcKey s2)"
        unfolding keys lx using fk by simp
    qed
  qed
qed

text \<open>What the loop reports has no part in what it builds.\<close>

lemma addFavourite_events:
  "map_sum id (\<lambda>(a, b, c, d). (a, b, c)) (addFavourite tv h (s, i, t, e)) =
   map_sum id (\<lambda>(a, b, c, d). (a, b, c)) (addFavourite tv h (s, i, t, e'))"
  by (simp add: addFavourite_def Let_def split: option.splits sum.splits)

lemma addFavourites_events:
  "map_sum id (\<lambda>(a, b, c, d). (a, b, c)) (addFavourites tv favs (s, i, t, e)) =
   map_sum id (\<lambda>(a, b, c, d). (a, b, c)) (addFavourites tv favs (s, i, t, e'))"
proof (induction favs arbitrary: s i t e e')
  case Nil
  show ?case by simp
next
  case (Cons h favs)
  note E = addFavourite_events [of tv h s i t e e']
  show ?case
  proof (cases "addFavourite tv h (s, i, t, e)")
    case (Inl x)
    with E have "addFavourite tv h (s, i, t, e') = Inl x"
      by (cases "addFavourite tv h (s, i, t, e')") simp_all
    with Inl show ?thesis by simp
  next
    case (Inr r)
    obtain s1 i1 t1 e1 where r: "r = (s1, i1, t1, e1)" by (metis prod_cases4)
    from E Inr r obtain e2 where "addFavourite tv h (s, i, t, e') = Inr (s1, i1, t1, e2)"
      by (cases "addFavourite tv h (s, i, t, e')") auto
    with Inr r Cons.IH [of s1 i1 t1 e1 e2] show ?thesis by simp
  qed
qed


text \<open>The start of \<^verbatim>\<open>buildServices\<close>: what is left of the accessory, and the new Television service.\<close>

lemma removeServices_info:
  "removeServices (map svcKey (filter (\<lambda>s. svcType s \<noteq> AccessoryInformation) svcs)) svcs =
     map (\<lambda>s. s\<lparr>linkedServices := filter
                 (\<lambda>l. l \<notin> set (map svcKey (filter (\<lambda>s. svcType s \<noteq> AccessoryInformation) svcs)))
                 (linkedServices s)\<rparr>)
       (filter (\<lambda>s. svcType s = AccessoryInformation) svcs)"
proof -
  have "filter (\<lambda>s. svcKey s \<notin> set (map svcKey (filter (\<lambda>s. svcType s \<noteq> AccessoryInformation) svcs)))
          svcs = filter (\<lambda>s. svcType s = AccessoryInformation) svcs"
    by (rule filter_cong [OF refl]) (auto simp: svcKey_def image_iff)
  then show ?thesis by (simp add: removeServices_def)
qed

lemma removeServices_types:
  "x \<in> set (removeServices (map svcKey (filter (\<lambda>s. svcType s \<noteq> AccessoryInformation) svcs)) svcs)
     \<Longrightarrow> svcType x = AccessoryInformation"
  unfolding removeServices_info by auto

lemma removeServices_length:
  "length (removeServices (map svcKey (filter (\<lambda>s. svcType s \<noteq> AccessoryInformation) svcs)) svcs) =
     length (filter (\<lambda>s. svcType s = AccessoryInformation) svcs)"
  unfolding removeServices_info by simp

lemma setCharacteristic_other:
  "\<forall>x\<in>set xs. svcKey x \<noteq> k \<Longrightarrow> setCharacteristic k c v xs = xs"
  by (simp add: setCharacteristic_def map_idI)

lemma clearLinkedServices_other:
  "\<forall>x\<in>set xs. svcKey x \<noteq> k \<Longrightarrow> clearLinkedServices k xs = xs"
  by (simp add: clearLinkedServices_def map_idI)

lemma setCharacteristic_append:
  "setCharacteristic k c v (xs @ ys) = setCharacteristic k c v xs @ setCharacteristic k c v ys"
  by (simp add: setCharacteristic_def)

lemma clearLinkedServices_append:
  "clearLinkedServices k (xs @ ys) = clearLinkedServices k xs @ clearLinkedServices k ys"
  by (simp add: clearLinkedServices_def)

lemma television_setup:
  assumes "\<forall>x\<in>set xs. svcType x = AccessoryInformation"
  shows "clearLinkedServices (Television, None)
           (setCharacteristic (Television, None) SleepDiscoveryMode (CNumber 1)
             (setCharacteristic (Television, None) Name (CString nm)
               (setCharacteristic (Television, None) ConfiguredName (CString nm)
                 (xs @ [newService Television nm None])))) =
         xs @ [\<lparr>svcType = Television, svcSubtype = None, displayName = nm,
                 characteristics = [ConfiguredName \<mapsto> CString (take 64 nm),
                   Name \<mapsto> CString (take 64 nm), SleepDiscoveryMode \<mapsto> CNumber 1],
                 linkedServices = []\<rparr>]"
proof -
  have o: "\<forall>x\<in>set xs. svcKey x \<noteq> (Television, None)"
    using assms by (simp add: svcKey_def)
  have m: "(if nm = [] then Map.empty else [Name \<mapsto> CString (take 64 nm)])
            (ConfiguredName \<mapsto> CString (take 64 nm), Name \<mapsto> CString (take 64 nm),
             SleepDiscoveryMode \<mapsto> CNumber 1) =
           [ConfiguredName \<mapsto> CString (take 64 nm), Name \<mapsto> CString (take 64 nm),
            SleepDiscoveryMode \<mapsto> CNumber 1]"
    by (rule ext) simp
  show ?thesis
    unfolding setCharacteristic_append clearLinkedServices_append
      setCharacteristic_other [OF o] clearLinkedServices_other [OF o]
    by (simp add: setCharacteristic_def clearLinkedServices_def newService_def svcKey_def
          validValue_def m)
qed

lemma buildServices_unfold:
  "buildServices st =
     (if 100 \<le> length (filter (\<lambda>s. svcType s = AccessoryInformation) (services st))
      then Inl TooManyServices
      else (case addFavourites (Television, None) (favourites st)
                  (removeServices
                     (map svcKey (filter (\<lambda>s. svcType s \<noteq> AccessoryInformation) (services st)))
                     (services st)
                   @ [\<lparr>svcType = Television, svcSubtype = None, displayName = tvName st,
                        characteristics = [ConfiguredName \<mapsto> CString (take 64 (tvName st)),
                          Name \<mapsto> CString (take 64 (tvName st)), SleepDiscoveryMode \<mapsto> CNumber 1],
                        linkedServices = []\<rparr>],
                   [], Map.empty,
                   map (\<lambda>s. ServiceRemoved (svcKey s))
                     (filter (\<lambda>s. svcType s \<noteq> AccessoryInformation) (services st))
                   @ [ServiceAdded (Television, None)]) of
              Inl e \<Rightarrow> Inl e
            | Inr (svcs, inputs, table, evs) \<Rightarrow>
                Inr (st\<lparr>services := svcs, tvService := (Television, None),
                        inputServices := inputs, identifierToChannel := table\<rparr>,
                     if debug st then evs @ [LogMsg (LogLoadedFavourites (length inputs))]
                     else evs)))"
proof -
  define xs where "xs = removeServices
     (map svcKey (filter (\<lambda>s. svcType s \<noteq> AccessoryInformation) (services st))) (services st)"
  have ty: "\<forall>x\<in>set xs. svcType x = AccessoryInformation"
    unfolding xs_def using removeServices_types by blast
  have len: "length xs = length (filter (\<lambda>s. svcType s = AccessoryInformation) (services st))"
    unfolding xs_def by (rule removeServices_length)
  have g: "getService Television xs = None"
    using ty by (auto simp: getService_def find_None_iff)
  have a: "addService (newService Television (tvName st) None) xs =
     (if 100 \<le> length xs then Inl TooManyServices
      else Inr (xs @ [newService Television (tvName st) None]))"
    by (rule addService_first) (use ty in auto)
  note s = television_setup [OF ty, of "tvName st"]
  show ?thesis
    unfolding buildServices_def Let_def xs_def [symmetric] g a len [symmetric]
    by (simp add: s split: sum.splits prod.splits)
qed


text \<open>A build that does not throw, by its parts.\<close>

lemma buildServices_run:
  assumes "buildServices st = Inr (st1, evs1)"
  obtains s0 e0 svcs inputs table evs where
    "addFavourites (Television, None) (favourites st) (s0, [], Map.empty, e0) =
       Inr (svcs, inputs, table, evs)"
    and "st1 = st\<lparr>services := svcs, tvService := (Television, None),
                   inputServices := inputs, identifierToChannel := table\<rparr>"
    and "evs1 = (if debug st then evs @ [LogMsg (LogLoadedFavourites (length inputs))] else evs)"
    and "\<forall>x\<in>set s0. fst (svcKey x) \<noteq> InputSource"
    and "\<forall>x\<in>set s0. svcKey x = (Television, None) \<longrightarrow> linkedServices x = []"
    and "filter (\<lambda>k. fst k \<noteq> AccessoryInformation) (map svcKey s0) = [(Television, None)]"
    and "servicesAdded e0 = [(Television, None)]"
    and "servicesRemoved e0 =
           map svcKey (filter (\<lambda>s. svcType s \<noteq> AccessoryInformation) (services st))"
    and "filter (\<lambda>s. svcType s = AccessoryInformation) s0 =
           removeServices
             (map svcKey (filter (\<lambda>s. svcType s \<noteq> AccessoryInformation) (services st)))
             (services st)"
proof -
  define xs where "xs = removeServices
     (map svcKey (filter (\<lambda>s. svcType s \<noteq> AccessoryInformation) (services st))) (services st)"
  define tv0 where "tv0 = \<lparr>svcType = Television, svcSubtype = None, displayName = tvName st,
     characteristics = [ConfiguredName \<mapsto> CString (take 64 (tvName st)),
       Name \<mapsto> CString (take 64 (tvName st)), SleepDiscoveryMode \<mapsto> CNumber 1],
     linkedServices = []\<rparr>"
  define e0 where "e0 = map (\<lambda>s. ServiceRemoved (svcKey s))
     (filter (\<lambda>s. svcType s \<noteq> AccessoryInformation) (services st))
     @ [ServiceAdded (Television, None)]"
  have ty: "\<forall>x\<in>set xs. svcType x = AccessoryInformation"
    unfolding xs_def using removeServices_types by blast
  have ktv: "svcKey tv0 = (Television, None)" "svcType tv0 = Television" "linkedServices tv0 = []"
    by (simp_all add: tv0_def svcKey_def)
  note u = buildServices_unfold [of st, folded xs_def tv0_def e0_def]
  from assms u obtain svcs inputs table evs where
    run: "addFavourites (Television, None) (favourites st) (xs @ [tv0], [], Map.empty, e0) =
       Inr (svcs, inputs, table, evs)"
    and st1: "st1 = st\<lparr>services := svcs, tvService := (Television, None),
                   inputServices := inputs, identifierToChannel := table\<rparr>"
    and evs1: "evs1 = (if debug st then evs @ [LogMsg (LogLoadedFavourites (length inputs))] else evs)"
    by (auto split: if_splits sum.splits prod.splits)
  have 1: "\<forall>x\<in>set (xs @ [tv0]). fst (svcKey x) \<noteq> InputSource"
    using ty ktv by (auto simp: svcKey_def)
  have 2: "\<forall>x\<in>set (xs @ [tv0]). svcKey x = (Television, None) \<longrightarrow> linkedServices x = []"
    using ty ktv by (auto simp: svcKey_def)
  have f: "filter (\<lambda>k. fst k \<noteq> AccessoryInformation) (map svcKey xs) = []"
    using ty by (auto simp: filter_empty_conv svcKey_def)
  have 3: "filter (\<lambda>k. fst k \<noteq> AccessoryInformation) (map svcKey (xs @ [tv0])) = [(Television, None)]"
    using f ktv by simp
  have 4: "servicesAdded e0 = [(Television, None)]"
    unfolding e0_def servicesAdded_append servicesAdded_removed by (simp add: servicesAdded_def)
  have 5: "servicesRemoved e0 =
           map svcKey (filter (\<lambda>s. svcType s \<noteq> AccessoryInformation) (services st))"
    unfolding e0_def servicesRemoved_append servicesRemoved_removed by (simp add: servicesRemoved_def)
  have 6: "filter (\<lambda>s. svcType s = AccessoryInformation) (xs @ [tv0]) = xs"
    using ty ktv by (simp add: filter_id_conv)
  have 7: "filter (\<lambda>s. svcType s = AccessoryInformation) (xs @ [tv0]) =
           removeServices
             (map svcKey (filter (\<lambda>s. svcType s \<noteq> AccessoryInformation) (services st)))
             (services st)"
    unfolding 6 by (rule xs_def)
  from run st1 evs1 1 2 3 4 5 7 show thesis by (rule that)
qed


lemma servicesAdded_log:
  "servicesAdded (if d then evs @ [LogMsg m] else evs) = servicesAdded evs"
  by (simp add: servicesAdded_def)

lemma servicesRemoved_log:
  "servicesRemoved (if d then evs @ [LogMsg m] else evs) = servicesRemoved evs"
  by (simp add: servicesRemoved_def)

text \<open>
  Building again. The services that stay are those that stayed the first time, and
  their links, which go to services that stayed, are not cut again.
\<close>

lemma buildServices_again:
  assumes b: "buildServices st = Inr (st1, evs1)"
    and H: "\<forall>s\<in>set (services st). set (linkedServices s) \<subseteq> set (map svcKey (services st))"
  shows "\<exists>evs2. buildServices st1 = Inr (st1, evs2)
           \<and> servicesRemoved evs2 =
               map svcKey (filter (\<lambda>s. svcType s \<noteq> AccessoryInformation) (services st1))
           \<and> servicesAdded evs2 = servicesRemoved evs2"
proof -
  define xs where "xs = removeServices
     (map svcKey (filter (\<lambda>s. svcType s \<noteq> AccessoryInformation) (services st))) (services st)"
  define tv0 where "tv0 = \<lparr>svcType = Television, svcSubtype = None, displayName = tvName st,
     characteristics = [ConfiguredName \<mapsto> CString (take 64 (tvName st)),
       Name \<mapsto> CString (take 64 (tvName st)), SleepDiscoveryMode \<mapsto> CNumber 1],
     linkedServices = []\<rparr>"
  define e0 where "e0 = map (\<lambda>s. ServiceRemoved (svcKey s))
     (filter (\<lambda>s. svcType s \<noteq> AccessoryInformation) (services st))
     @ [ServiceAdded (Television, None)]"
  have ty: "\<forall>x\<in>set xs. svcType x = AccessoryInformation"
    unfolding xs_def using removeServices_types by blast
  have ktv: "svcKey tv0 = (Television, None)" "svcType tv0 = Television"
    by (simp_all add: tv0_def svcKey_def)
  have len: "length xs = length (filter (\<lambda>s. svcType s = AccessoryInformation) (services st))"
    unfolding xs_def by (rule removeServices_length)
  note u = buildServices_unfold [of st, folded xs_def tv0_def e0_def]
  from b u have small: "\<not> 100 \<le> length xs"
    unfolding len by (auto split: if_splits)
  from b u obtain svcs inputs table evs where
    run: "addFavourites (Television, None) (favourites st) (xs @ [tv0], [], Map.empty, e0) =
       Inr (svcs, inputs, table, evs)"
    and st1: "st1 = st\<lparr>services := svcs, tvService := (Television, None),
                   inputServices := inputs, identifierToChannel := table\<rparr>"
    by (auto split: if_splits sum.splits prod.splits)
  have tvn: "fst (Television, None :: string option) \<noteq> AccessoryInformation" by simp
  have f: "filter (\<lambda>k. fst k \<noteq> AccessoryInformation) (map svcKey xs) = []"
    using ty by (auto simp: filter_empty_conv svcKey_def)
  have added: "\<And>e. servicesAdded (map (\<lambda>s. ServiceRemoved (svcKey s)) e
                 @ [ServiceAdded (Television, None)]) = [(Television, None)]"
    unfolding servicesAdded_append servicesAdded_removed by (simp add: servicesAdded_def)
  have removed: "\<And>e. servicesRemoved (map (\<lambda>s. ServiceRemoved (svcKey s)) e
                 @ [ServiceAdded (Television, None)]) = map svcKey e"
    unfolding servicesRemoved_append servicesRemoved_removed by (simp add: servicesRemoved_def)
  have start: "filter (\<lambda>k. fst k \<noteq> AccessoryInformation) (map svcKey (xs @ [tv0])) = servicesAdded e0"
    unfolding e0_def added using f ktv by simp
  note A = addFavourites_info_keys [OF run tvn start]
  have info: "filter (\<lambda>s. svcType s = AccessoryInformation) svcs = xs"
    using A [THEN conjunct1] ty ktv by (simp add: filter_id_conv)
  have links: "fst l = AccessoryInformation" if x: "x \<in> set xs" and l: "l \<in> set (linkedServices x)" for x l
  proof -
    from x obtain y where y: "y \<in> set (services st)"
      and xy: "linkedServices x = filter
          (\<lambda>l. l \<notin> set (map svcKey (filter (\<lambda>s. svcType s \<noteq> AccessoryInformation) (services st))))
          (linkedServices y)"
      unfolding xs_def removeServices_info by auto
    from l xy have l1: "l \<in> set (linkedServices y)"
      and l2: "l \<notin> set (map svcKey (filter (\<lambda>s. svcType s \<noteq> AccessoryInformation) (services st)))"
      by simp_all
    from H y l1 obtain z where z: "z \<in> set (services st)" and lz: "l = svcKey z" by auto
    from l2 z lz have "svcType z = AccessoryInformation" by auto
    with lz show ?thesis by (simp add: svcKey_def)
  qed
  have same: "removeServices
     (map svcKey (filter (\<lambda>s. svcType s \<noteq> AccessoryInformation) svcs)) svcs = xs"
    unfolding removeServices_info info
  proof (rule map_idI)
    fix x assume x: "x \<in> set xs"
    have "filter (\<lambda>l. l \<notin> set (map svcKey (filter (\<lambda>s. svcType s \<noteq> AccessoryInformation) svcs)))
            (linkedServices x) = linkedServices x"
      unfolding filter_id_conv using links [OF x] by (auto simp: svcKey_def)
    then show "x\<lparr>linkedServices := filter
         (\<lambda>l. l \<notin> set (map svcKey (filter (\<lambda>s. svcType s \<noteq> AccessoryInformation) svcs)))
         (linkedServices x)\<rparr> = x"
      by simp
  qed
  define e0' where "e0' = map (\<lambda>s. ServiceRemoved (svcKey s))
     (filter (\<lambda>s. svcType s \<noteq> AccessoryInformation) svcs) @ [ServiceAdded (Television, None)]"
  have f1: "services st1 = svcs" "tvName st1 = tvName st" "favourites st1 = favourites st"
    "debug st1 = debug st"
    by (simp_all add: st1)
  have self: "st1\<lparr>services := svcs, tvService := (Television, None),
                   inputServices := inputs, identifierToChannel := table\<rparr> = st1"
    by (simp add: st1)
  from addFavourites_events [of "(Television, None)" "favourites st" "xs @ [tv0]" "[]" Map.empty e0 e0']
  obtain evs' where run': "addFavourites (Television, None) (favourites st)
       (xs @ [tv0], [], Map.empty, e0') = Inr (svcs, inputs, table, evs')"
    unfolding run
    by (cases "addFavourites (Television, None) (favourites st) (xs @ [tv0], [], Map.empty, e0')")
       auto
  have start': "filter (\<lambda>k. fst k \<noteq> AccessoryInformation) (map svcKey (xs @ [tv0])) = servicesAdded e0'"
    unfolding e0'_def added using f ktv by simp
  note B = addFavourites_info_keys [OF run' tvn start']
  have u1: "buildServices st1 =
      Inr (st1, if debug st then evs' @ [LogMsg (LogLoadedFavourites (length inputs))] else evs')"
    unfolding buildServices_unfold [of st1] f1 same removeServices_length [symmetric]
      tv0_def [symmetric] e0'_def [symmetric] run'
    using small self by simp
  have r: "servicesRemoved evs' =
      map svcKey (filter (\<lambda>s. svcType s \<noteq> AccessoryInformation) (services st1))"
    unfolding B [THEN conjunct2, THEN conjunct2] e0'_def removed f1 ..
  have a: "servicesAdded evs' =
      map svcKey (filter (\<lambda>s. svcType s \<noteq> AccessoryInformation) (services st1))"
    unfolding B [THEN conjunct2, THEN conjunct1, symmetric] filtered_keys f1 ..
  define evs2 where
    "evs2 = (if debug st then evs' @ [LogMsg (LogLoadedFavourites (length inputs))] else evs')"
  have r2: "servicesRemoved evs2 =
      map svcKey (filter (\<lambda>s. svcType s \<noteq> AccessoryInformation) (services st1))"
    unfolding evs2_def servicesRemoved_log by (rule r)
  have a2: "servicesAdded evs2 = servicesRemoved evs2"
    unfolding r2 unfolding evs2_def servicesAdded_log by (rule a)
  from u1 [folded evs2_def] r2 a2 show ?thesis by blast
qed


text \<open>
  The limit of the host: a build that does not throw leaves at most 100 services, the
  information services, the Television service and one input for each subtype.
\<close>

lemma addFavourites_length:
  assumes run: "addFavourites tv favs (s0, [], t0, e0) = Inr (s, i, t, e)"
    and l0: "length s0 \<le> 100"
    and n0: "\<forall>k\<in>set (map svcKey s0). fst k \<noteq> InputSource"
  shows "length s \<le> 100 \<and> length s = length s0 + card (set i)
         \<and> {k \<in> set (map svcKey s). fst k = InputSource} = set i"
proof (rule addFavourites_induct4 [OF run, where Q = "\<lambda>done s i t e.
         length s \<le> 100 \<and> length s = length s0 + card (set i)
         \<and> {k \<in> set (map svcKey s). fst k = InputSource} = set i"])
  have e: "{k \<in> set (map svcKey s0). fst k = InputSource} = set []"
    using n0 by fastforce
  show "length s0 \<le> 100 \<and> length s0 = length s0 + card (set [])
         \<and> {k \<in> set (map svcKey s0). fst k = InputSource} = set []"
    using l0 e by simp
next
  fix "done" :: "favourite list" and h s1 i1 t1 e1 s2 i2 t2 e2
  assume q: "length s1 \<le> 100 \<and> length s1 = length s0 + card (set i1)
         \<and> {k \<in> set (map svcKey s1). fst k = InputSource} = set i1"
    and st: "addFavourite tv h (s1, i1, t1, e1) = Inr (s2, i2, t2, e2)"
  define k where "k = (InputSource, Some (favSubtype (number h)))"
  have fk: "fst k = InputSource" by (simp add: k_def)
  from q have q1: "length s1 \<le> 100" and q2: "length s1 = length s0 + card (set i1)"
    and q3: "{k \<in> set (map svcKey s1). fst k = InputSource} = set i1"
    by blast+
  from st show "length s2 \<le> 100 \<and> length s2 = length s0 + card (set i2)
         \<and> {k \<in> set (map svcKey s2). fst k = InputSource} = set i2"
  proof (cases rule: addFavourite_cases)
    case skip
    with q show ?thesis by simp
  next
    case (old j)
    have keys: "map svcKey s2 = map svcKey s1"
      unfolding old(5) by (simp add: allKeys_addLinkedService allKeys_configureInput)
    have len: "length s2 = length s1" using arg_cong [OF keys, of length] by simp
    have i2: "i2 = i1 @ [k]" using old(6) unfolding k_def .
    have mem: "k \<in> set (map svcKey s1)" using old(4) unfolding k_def .
    with fk q3 have "k \<in> set i1" by blast
    then have s: "set (i1 @ [k]) = set i1" by auto
    show ?thesis unfolding keys len i2 s using q1 q2 q3 by blast
  next
    case (new j)
    have keys: "map svcKey s2 = map svcKey s1 @ [k]"
      unfolding new(6) k_def
      by (simp add: allKeys_addLinkedService allKeys_configureInput newService_def svcKey_def)
    have len: "length s2 = Suc (length s1)" using arg_cong [OF keys, of length] by simp
    have i2: "i2 = i1 @ [k]" using new(7) unfolding k_def .
    have mem: "k \<notin> set (map svcKey s1)" using new(4) unfolding k_def .
    with q3 have "k \<notin> set i1" by blast
    then have c: "card (set (i1 @ [k])) = Suc (card (set i1))" by simp
    have b: "{x \<in> set (map svcKey s1 @ [k]). fst x = InputSource} = set (i1 @ [k])"
      using q3 fk by auto
    show ?thesis unfolding keys len i2 c using new(5) q2 b by simp
  qed
qed


lemma addFavourite_error: "addFavourite tv h acc = Inl e \<Longrightarrow> e = TooManyServices"
proof (cases "case favIdentifier (number h) of None \<Rightarrow> False | Some i \<Rightarrow> 0 < i \<and> i \<le> 999")
  case False
  assume "addFavourite tv h acc = Inl e"
  with addFavourite_skip [OF False, of tv acc] show ?thesis by simp
next
  case True
  assume a: "addFavourite tv h acc = Inl e"
  from True obtain i where i: "favIdentifier (number h) = Some i" "0 < i" "i \<le> 999"
    by (auto split: option.splits)
  obtain s1 i1 t1 e1 where acc: "acc = (s1, i1, t1, e1)" by (metis prod_cases4)
  from a show ?thesis
    unfolding acc addFavourite_accept [OF i] by (simp split: if_splits)
qed

lemma addFavourites_error: "addFavourites tv favs acc = Inl e \<Longrightarrow> e = TooManyServices"
proof (induction favs arbitrary: acc)
  case Nil
  then show ?case by simp
next
  case (Cons h favs)
  show ?case
  proof (cases "addFavourite tv h acc")
    case (Inl x)
    with Cons.prems have "x = e" by simp
    with Inl show ?thesis using addFavourite_error by blast
  next
    case (Inr r)
    with Cons.prems have "addFavourites tv favs r = Inl e" by simp
    then show ?thesis by (rule Cons.IH)
  qed
qed

lemma buildServices_error: "buildServices st = Inl e \<Longrightarrow> e = TooManyServices"
  unfolding buildServices_unfold
  by (auto split: if_splits sum.splits prod.splits dest: addFavourites_error)

lemma buildServices_limit:
  assumes "buildServices st = Inr (st1, evs1)"
  shows "length (services st1) \<le> 100
       \<and> length (services st1) =
           length (filter (\<lambda>s. svcType s = AccessoryInformation) (services st)) + 1
           + card (set (inputServices st1))"
proof -
  define xs where "xs = removeServices
     (map svcKey (filter (\<lambda>s. svcType s \<noteq> AccessoryInformation) (services st))) (services st)"
  define tv0 where "tv0 = \<lparr>svcType = Television, svcSubtype = None, displayName = tvName st,
     characteristics = [ConfiguredName \<mapsto> CString (take 64 (tvName st)),
       Name \<mapsto> CString (take 64 (tvName st)), SleepDiscoveryMode \<mapsto> CNumber 1],
     linkedServices = []\<rparr>"
  define e0 where "e0 = map (\<lambda>s. ServiceRemoved (svcKey s))
     (filter (\<lambda>s. svcType s \<noteq> AccessoryInformation) (services st))
     @ [ServiceAdded (Television, None)]"
  have ty: "\<forall>x\<in>set xs. svcType x = AccessoryInformation"
    unfolding xs_def using removeServices_types by blast
  have ktv: "svcKey tv0 = (Television, None)"
    by (simp add: tv0_def svcKey_def)
  have len: "length xs = length (filter (\<lambda>s. svcType s = AccessoryInformation) (services st))"
    unfolding xs_def by (rule removeServices_length)
  note u = buildServices_unfold [of st, folded xs_def tv0_def e0_def]
  from assms u have "\<not> 100 \<le> length (filter (\<lambda>s. svcType s = AccessoryInformation) (services st))"
    by (auto split: if_splits)
  with len have small: "length (xs @ [tv0]) \<le> 100" by simp
  from assms u obtain svcs inputs table evs where
    run: "addFavourites (Television, None) (favourites st) (xs @ [tv0], [], Map.empty, e0) =
       Inr (svcs, inputs, table, evs)"
    and st1: "st1 = st\<lparr>services := svcs, tvService := (Television, None),
                   inputServices := inputs, identifierToChannel := table\<rparr>"
    by (auto split: if_splits sum.splits prod.splits)
  have n0: "\<forall>k\<in>set (map svcKey (xs @ [tv0])). fst k \<noteq> InputSource"
    using ty ktv by (auto simp: svcKey_def)
  from addFavourites_length [OF run small n0] len
  show ?thesis by (simp add: st1)
qed

text \<open>A build throws when the accessory would get more than 100 services, and only then.\<close>

lemma addFavourites_returns:
  assumes "length s + card (set (map (\<lambda>f. (InputSource, Some (favSubtype (number f))))
             (filter (\<lambda>f. case favIdentifier (number f) of None \<Rightarrow> False
                           | Some i \<Rightarrow> 0 < i \<and> i \<le> 999) favs)) - set (map svcKey s)) \<le> 100"
  shows "\<exists>r. addFavourites tv favs (s, i, t, e) = Inr r"
  using assms
proof (induction favs arbitrary: s i t e)
  case Nil
  show ?case by simp
next
  case (Cons h favs)
  define A where "A = set (map (\<lambda>f. (InputSource, Some (favSubtype (number f))))
             (filter (\<lambda>f. case favIdentifier (number f) of None \<Rightarrow> False
                           | Some i \<Rightarrow> 0 < i \<and> i \<le> 999) favs))"
  define k where "k = (InputSource, Some (favSubtype (number h)))"
  have fin: "finite A" unfolding A_def by simp
  show ?case
  proof (cases "case favIdentifier (number h) of None \<Rightarrow> False | Some i \<Rightarrow> 0 < i \<and> i \<le> 999")
    case False
    from Cons.prems False have "length s + card (A - set (map svcKey s)) \<le> 100"
      unfolding A_def by simp
    from Cons.IH [OF this [unfolded A_def], of i t e] addFavourite_skip [OF False, of tv "(s, i, t, e)"]
    show ?thesis by simp
  next
    case True
    then obtain j where j: "favIdentifier (number h) = Some j" "0 < j" "j \<le> 999"
      by (auto split: option.splits)
    from Cons.prems True have p: "length s + card (insert k A - set (map svcKey s)) \<le> 100"
      unfolding A_def k_def by simp
    note eq = addFavourite_accept [OF j, of tv s i t e]
    show ?thesis
    proof (cases "k \<in> set (map svcKey s)")
      case True
      define s' where "s' = addLinkedService tv k (configureInput k j (name h) s)"
      have keys: "map svcKey s' = map svcKey s"
        unfolding s'_def by (simp add: allKeys_addLinkedService allKeys_configureInput)
      have len: "length s' = length s" using arg_cong [OF keys, of length] by simp
      have "insert k A - set (map svcKey s) = A - set (map svcKey s)" using True by auto
      with p have "length s' + card (A - set (map svcKey s')) \<le> 100"
        unfolding keys len by simp
      from Cons.IH [OF this [unfolded A_def], of "i @ [k]" "t(j \<mapsto> number h)" e]
      obtain r where r: "addFavourites tv favs (s', i @ [k], t(j \<mapsto> number h), e) = Inr r"
        by blast
      have step: "addFavourite tv h (s, i, t, e) = Inr (s', i @ [k], t(j \<mapsto> number h), e)"
        unfolding s'_def k_def eq if_P [OF True [unfolded k_def]] ..
      have "addFavourites tv (h # favs) (s, i, t, e) = Inr r"
        unfolding addFavourites.simps step using r by simp
      then show ?thesis by (rule exI)
    next
      case False
      define s' where "s' = addLinkedService tv k (configureInput k j (name h)
          (s @ [newService InputSource (name h) (Some (favSubtype (number h)))]))"
      have keys: "map svcKey s' = map svcKey s @ [k]"
        unfolding s'_def k_def
        by (simp add: allKeys_addLinkedService allKeys_configureInput newService_def svcKey_def)
      have len: "length s' = Suc (length s)" using arg_cong [OF keys, of length] by simp
      have in': "k \<in> insert k A - set (map svcKey s)" using False by simp
      have f': "finite (insert k A - set (map svcKey s))" using fin by simp
      from in' f' have pos: "0 < card (insert k A - set (map svcKey s))"
        by (auto simp: card_gt_0_iff)
      with p have small: "\<not> 100 \<le> length s" by simp
      have sub: "A - set (map svcKey s @ [k]) \<subseteq> (insert k A - set (map svcKey s)) - {k}"
        by auto
      have "card (A - set (map svcKey s @ [k])) \<le> card ((insert k A - set (map svcKey s)) - {k})"
        using sub f' by (intro card_mono) simp_all
      also have "\<dots> = card (insert k A - set (map svcKey s)) - 1"
        using in' f' by simp
      finally have "Suc (length s) + card (A - set (map svcKey s @ [k])) \<le> 100"
        using p pos by simp
      then have "length s' + card (A - set (map svcKey s')) \<le> 100"
        unfolding keys len .
      from Cons.IH [OF this [unfolded A_def], of "i @ [k]" "t(j \<mapsto> number h)"
          "e @ [ServiceAdded k]"]
      obtain r where r: "addFavourites tv favs
          (s', i @ [k], t(j \<mapsto> number h), e @ [ServiceAdded k]) = Inr r"
        by blast
      have step: "addFavourite tv h (s, i, t, e) =
          Inr (s', i @ [k], t(j \<mapsto> number h), e @ [ServiceAdded k])"
        unfolding s'_def k_def eq if_not_P [OF False [unfolded k_def]] if_not_P [OF small] ..
      have "addFavourites tv (h # favs) (s, i, t, e) = Inr r"
        unfolding addFavourites.simps step using r by simp
      then show ?thesis by (rule exI)
    qed
  qed
qed

lemma buildServices_returns:
  "(\<exists>st1 evs1. buildServices st = Inr (st1, evs1)) =
     (length (filter (\<lambda>s. svcType s = AccessoryInformation) (services st)) + 1
      + card (set (map (\<lambda>f. (InputSource, Some (favSubtype (number f))))
             (filter (\<lambda>f. case favIdentifier (number f) of None \<Rightarrow> False
                           | Some i \<Rightarrow> 0 < i \<and> i \<le> 999) (favourites st)))) \<le> 100)"
proof
  assume "\<exists>st1 evs1. buildServices st = Inr (st1, evs1)"
  then obtain st1 evs1 where b: "buildServices st = Inr (st1, evs1)" by blast
  from b obtain s0 e0 svcs inputs table evs where
    run: "addFavourites (Television, None) (favourites st) (s0, [], Map.empty, e0) =
       Inr (svcs, inputs, table, evs)"
    and st1: "st1 = st\<lparr>services := svcs, tvService := (Television, None),
                   inputServices := inputs, identifierToChannel := table\<rparr>"
    and n0: "\<forall>x\<in>set s0. fst (svcKey x) \<noteq> InputSource"
    and k0: "filter (\<lambda>k. fst k \<noteq> AccessoryInformation) (map svcKey s0) = [(Television, None)]"
    by (rule buildServices_run)
  have d0: "distinct (filter (\<lambda>k. fst k \<noteq> AccessoryInformation) (map svcKey s0))"
    unfolding k0 by simp
  have n0': "\<forall>k\<in>set (map svcKey s0). fst k \<noteq> InputSource" using n0 by simp
  from addFavourites_inputs [OF run d0 n0']
  have "inputs = map (\<lambda>f. (InputSource, Some (favSubtype (number f))))
               (filter (\<lambda>f. case favIdentifier (number f) of None \<Rightarrow> False
                             | Some i \<Rightarrow> 0 < i \<and> i \<le> 999) (favourites st))"
    by blast
  with buildServices_limit [OF b] st1
  show "length (filter (\<lambda>s. svcType s = AccessoryInformation) (services st)) + 1
      + card (set (map (\<lambda>f. (InputSource, Some (favSubtype (number f))))
             (filter (\<lambda>f. case favIdentifier (number f) of None \<Rightarrow> False
                           | Some i \<Rightarrow> 0 < i \<and> i \<le> 999) (favourites st)))) \<le> 100"
    by simp
next
  assume a: "length (filter (\<lambda>s. svcType s = AccessoryInformation) (services st)) + 1
      + card (set (map (\<lambda>f. (InputSource, Some (favSubtype (number f))))
             (filter (\<lambda>f. case favIdentifier (number f) of None \<Rightarrow> False
                           | Some i \<Rightarrow> 0 < i \<and> i \<le> 999) (favourites st)))) \<le> 100"
  define xs where "xs = removeServices
     (map svcKey (filter (\<lambda>s. svcType s \<noteq> AccessoryInformation) (services st))) (services st)"
  define tv0 where "tv0 = \<lparr>svcType = Television, svcSubtype = None, displayName = tvName st,
     characteristics = [ConfiguredName \<mapsto> CString (take 64 (tvName st)),
       Name \<mapsto> CString (take 64 (tvName st)), SleepDiscoveryMode \<mapsto> CNumber 1],
     linkedServices = []\<rparr>"
  define e0 where "e0 = map (\<lambda>s. ServiceRemoved (svcKey s))
     (filter (\<lambda>s. svcType s \<noteq> AccessoryInformation) (services st))
     @ [ServiceAdded (Television, None)]"
  define A where "A = set (map (\<lambda>f. (InputSource, Some (favSubtype (number f))))
             (filter (\<lambda>f. case favIdentifier (number f) of None \<Rightarrow> False
                           | Some i \<Rightarrow> 0 < i \<and> i \<le> 999) (favourites st)))"
  have ty: "\<forall>x\<in>set xs. svcType x = AccessoryInformation"
    unfolding xs_def using removeServices_types by blast
  have ktv: "svcKey tv0 = (Television, None)"
    by (simp add: tv0_def svcKey_def)
  have len: "length xs = length (filter (\<lambda>s. svcType s = AccessoryInformation) (services st))"
    unfolding xs_def by (rule removeServices_length)
  have "A \<inter> set (map svcKey (xs @ [tv0])) = {}"
    unfolding A_def using ty ktv by (auto simp: svcKey_def)
  then have "A - set (map svcKey (xs @ [tv0])) = A" by blast
  with a len have "length (xs @ [tv0]) + card (A - set (map svcKey (xs @ [tv0]))) \<le> 100"
    unfolding A_def by simp
  from addFavourites_returns [OF this [unfolded A_def], of "(Television, None)" "[]" Map.empty e0]
  obtain r where r: "addFavourites (Television, None) (favourites st)
      (xs @ [tv0], [], Map.empty, e0) = Inr r"
    by blast
  from a len have small: "\<not> 100 \<le> length (filter (\<lambda>s. svcType s = AccessoryInformation) (services st))"
    by simp
  show "\<exists>st1 evs1. buildServices st = Inr (st1, evs1)"
    unfolding buildServices_unfold [of st, folded xs_def tv0_def e0_def] if_not_P [OF small] r
    by (cases r) simp
qed

text \<open>What a build that does not throw leaves, and what building again does.\<close>

lemma buildServices_built:
  assumes "buildServices st = Inr (st1, evs1)"
  shows "((\<forall>s\<in>set (services st). set (linkedServices s) \<subseteq> set (map svcKey (services st))) \<longrightarrow>
            (\<exists>evs2. buildServices st1 = Inr (st1, evs2)
               \<and> servicesRemoved evs2 =
                   map svcKey (filter (\<lambda>s. svcType s \<noteq> AccessoryInformation) (services st1))
               \<and> servicesAdded evs2 = servicesRemoved evs2))
       \<and> favourites st1 = favourites st
       \<and> distinct (map svcKey (filter (\<lambda>s. svcType s \<noteq> AccessoryInformation) (services st1)))
       \<and> inputServices st1 =
           map (\<lambda>f. (InputSource, Some (favSubtype (number f))))
             (filter (\<lambda>f. case favIdentifier (number f) of None \<Rightarrow> False
                           | Some i \<Rightarrow> 0 < i \<and> i \<le> 999) (favourites st))
       \<and> {k \<in> set (map svcKey (services st1)). fst k = InputSource} = set (inputServices st1)
       \<and> (\<forall>x\<in>set (services st1). \<forall>n. svcKey x = (InputSource, Some (favSubtype n)) \<longrightarrow>
             (\<exists>j. favIdentifier n = Some j \<and> 0 < j \<and> j \<le> 999
                  \<and> characteristics x Identifier = Some (CNumber j))
           \<and> characteristics x ConfiguredName =
               Some (CString (take 64 (name (last (filter (\<lambda>f. number f = n) (favourites st))))))
           \<and> characteristics x Name =
               Some (CString (take 64 (name (last (filter (\<lambda>f. number f = n) (favourites st))))))
           \<and> characteristics x IsConfigured = Some (CNumber 1)
           \<and> characteristics x CurrentVisibilityState = Some (CNumber 0)
           \<and> characteristics x InputSourceType = Some (CNumber 2))
       \<and> (\<forall>j. identifierToChannel st1 j =
             (let fs = filter (\<lambda>f. favIdentifier (number f) = Some j \<and> 0 < j \<and> j \<le> 999)
                         (favourites st)
              in if fs = [] then None else Some (number (last fs))))
       \<and> tvService st1 = (Television, None)
       \<and> (Television, None) \<in> set (map svcKey (services st1))
       \<and> (\<forall>x\<in>set (services st1). svcKey x = (Television, None) \<longrightarrow>
             linkedServices x = filter (\<lambda>k. fst k = InputSource) (map svcKey (services st1)))
       \<and> length (services st1) \<le> 100"
proof -
  from assms obtain s0 e0 svcs inputs table evs where
    run: "addFavourites (Television, None) (favourites st) (s0, [], Map.empty, e0) =
       Inr (svcs, inputs, table, evs)"
    and st1: "st1 = st\<lparr>services := svcs, tvService := (Television, None),
                   inputServices := inputs, identifierToChannel := table\<rparr>"
    and n0: "\<forall>x\<in>set s0. fst (svcKey x) \<noteq> InputSource"
    and l0: "\<forall>x\<in>set s0. svcKey x = (Television, None) \<longrightarrow> linkedServices x = []"
    and k0: "filter (\<lambda>k. fst k \<noteq> AccessoryInformation) (map svcKey s0) = [(Television, None)]"
    by (rule buildServices_run)
  have f: "services st1 = svcs" "inputServices st1 = inputs" "identifierToChannel st1 = table"
    "tvService st1 = (Television, None)" "favourites st1 = favourites st"
    by (simp_all add: st1)
  have tvn: "fst (Television, None :: string option) \<noteq> InputSource" by simp
  have d0: "distinct (filter (\<lambda>k. fst k \<noteq> AccessoryInformation) (map svcKey s0))"
    unfolding k0 by simp
  have n0': "\<forall>k\<in>set (map svcKey s0). fst k \<noteq> InputSource" using n0 by simp
  note I = addFavourites_inputs [OF run d0 n0']
  have tv0: "(Television, None) \<in> set (map svcKey s0)"
  proof -
    have "(Television, None) \<in> set (filter (\<lambda>k. fst k \<noteq> AccessoryInformation) (map svcKey s0))"
      unfolding k0 by simp
    then show ?thesis by simp
  qed
  have again: "(\<forall>s\<in>set (services st). set (linkedServices s) \<subseteq> set (map svcKey (services st))) \<longrightarrow>
            (\<exists>evs2. buildServices st1 = Inr (st1, evs2)
               \<and> servicesRemoved evs2 =
                   map svcKey (filter (\<lambda>s. svcType s \<noteq> AccessoryInformation) (services st1))
               \<and> servicesAdded evs2 = servicesRemoved evs2)"
    using buildServices_again [OF assms] by blast
  have dist: "distinct (map svcKey (filter (\<lambda>s. svcType s \<noteq> AccessoryInformation) (services st1)))"
    unfolding f filtered_keys by (rule I [THEN conjunct1])
  have inp: "inputServices st1 =
           map (\<lambda>f. (InputSource, Some (favSubtype (number f))))
             (filter (\<lambda>f. case favIdentifier (number f) of None \<Rightarrow> False
                           | Some i \<Rightarrow> 0 < i \<and> i \<le> 999) (favourites st))"
    unfolding f by (rule I [THEN conjunct2, THEN conjunct2, THEN conjunct1])
  have keys: "{k \<in> set (map svcKey (services st1)). fst k = InputSource} = set (inputServices st1)"
    unfolding f by (rule I [THEN conjunct2, THEN conjunct1])
  have chars: "\<forall>x\<in>set (services st1). \<forall>n. svcKey x = (InputSource, Some (favSubtype n)) \<longrightarrow>
             (\<exists>j. favIdentifier n = Some j \<and> 0 < j \<and> j \<le> 999
                  \<and> characteristics x Identifier = Some (CNumber j))
           \<and> characteristics x ConfiguredName =
               Some (CString (take 64 (name (last (filter (\<lambda>f. number f = n) (favourites st))))))
           \<and> characteristics x Name =
               Some (CString (take 64 (name (last (filter (\<lambda>f. number f = n) (favourites st))))))
           \<and> characteristics x IsConfigured = Some (CNumber 1)
           \<and> characteristics x CurrentVisibilityState = Some (CNumber 0)
           \<and> characteristics x InputSourceType = Some (CNumber 2)"
    unfolding f by (rule addFavourites_characteristics [OF run tvn n0])
  have tab: "\<forall>j. identifierToChannel st1 j =
             (let fs = filter (\<lambda>f. favIdentifier (number f) = Some j \<and> 0 < j \<and> j \<le> 999)
                         (favourites st)
              in if fs = [] then None else Some (number (last fs)))"
    unfolding f by (rule allI) (rule addFavourites_table [OF run])
  have tv: "(Television, None) \<in> set (map svcKey (services st1))"
  proof -
    have "(Television, None) \<in> set (filter (\<lambda>k. fst k \<noteq> InputSource) (map svcKey svcs))"
      unfolding I [THEN conjunct2, THEN conjunct2, THEN conjunct2] by (rule tv0)
    then show ?thesis unfolding f by simp
  qed
  have links: "\<forall>x\<in>set (services st1). svcKey x = (Television, None) \<longrightarrow>
             linkedServices x = filter (\<lambda>k. fst k = InputSource) (map svcKey (services st1))"
    unfolding f by (rule addFavourites_links [OF run tvn n0 l0])
  have lim: "length (services st1) \<le> 100"
    using buildServices_limit [OF assms] by simp
  show ?thesis
    by (intro conjI again f(5) dist inp keys chars tab f(4) tv links lim)
qed


text \<open>
  Claim C3, as the code has it. A build throws, and leaves no controller, exactly when
  the accessory would get more than 100 services: the host's library throws at the
  101st, and the build has no handler. For a build that does not throw: the inputs of
  the accessory are those with subtype \<open>fav:\<close> and the number, one for each favourite
  whose number is from 1 to 999, no two with the same subtype; the identifier of each is
  that number, its names are those of the last favourite with the number, cut to 64
  characters; the table takes an identifier to the number of the last favourite with
  it; the Television service is linked to each input once. Building again from the same
  favourites gives the same controller, accessory and table, so each input comes back
  with its subtype, identifier and names. It gets there by removing and adding, not by
  updating in place: the second build removes every service but the accessory
  information, and adds every one of them again, in the same order. (References to
  services being pairs of type and subtype here, the links of the services that stay
  are taken to go to services of the accessory.)
\<close>

theorem buildServices_rebuild:
  "((\<exists>s e. buildServices st = Inr (s, e)) =
      (length (filter (\<lambda>s. svcType s = AccessoryInformation) (services st)) + 1
       + card (set (map (\<lambda>f. (InputSource, Some (favSubtype (number f))))
              (filter (\<lambda>f. case favIdentifier (number f) of None \<Rightarrow> False
                            | Some i \<Rightarrow> 0 < i \<and> i \<le> 999) (favourites st)))) \<le> 100))
   \<and> (buildServices st = Inr (st1, evs1) \<longrightarrow>
       ((\<forall>s\<in>set (services st). set (linkedServices s) \<subseteq> set (map svcKey (services st))) \<longrightarrow>
           (\<exists>evs2. buildServices st1 = Inr (st1, evs2)
              \<and> servicesRemoved evs2 =
                  map svcKey (filter (\<lambda>s. svcType s \<noteq> AccessoryInformation) (services st1))
              \<and> servicesAdded evs2 = servicesRemoved evs2))
      \<and> favourites st1 = favourites st
      \<and> distinct (map svcKey (filter (\<lambda>s. svcType s \<noteq> AccessoryInformation) (services st1)))
      \<and> inputServices st1 =
          map (\<lambda>f. (InputSource, Some (favSubtype (number f))))
            (filter (\<lambda>f. case favIdentifier (number f) of None \<Rightarrow> False
                          | Some i \<Rightarrow> 0 < i \<and> i \<le> 999) (favourites st))
      \<and> {k \<in> set (map svcKey (services st1)). fst k = InputSource} = set (inputServices st1)
      \<and> (\<forall>x\<in>set (services st1). \<forall>n. svcKey x = (InputSource, Some (favSubtype n)) \<longrightarrow>
            (\<exists>j. favIdentifier n = Some j \<and> 0 < j \<and> j \<le> 999
                 \<and> characteristics x Identifier = Some (CNumber j))
          \<and> characteristics x ConfiguredName =
              Some (CString (take 64 (name (last (filter (\<lambda>f. number f = n) (favourites st))))))
          \<and> characteristics x Name =
              Some (CString (take 64 (name (last (filter (\<lambda>f. number f = n) (favourites st))))))
          \<and> characteristics x IsConfigured = Some (CNumber 1)
          \<and> characteristics x CurrentVisibilityState = Some (CNumber 0)
          \<and> characteristics x InputSourceType = Some (CNumber 2))
      \<and> (\<forall>j. identifierToChannel st1 j =
            (let fs = filter (\<lambda>f. favIdentifier (number f) = Some j \<and> 0 < j \<and> j \<le> 999)
                        (favourites st)
             in if fs = [] then None else Some (number (last fs))))
      \<and> tvService st1 = (Television, None)
      \<and> (Television, None) \<in> set (map svcKey (services st1))
      \<and> (\<forall>x\<in>set (services st1). svcKey x = (Television, None) \<longrightarrow>
            linkedServices x = filter (\<lambda>k. fst k = InputSource) (map svcKey (services st1)))
      \<and> length (services st1) \<le> 100)"
proof (rule conjI)
  show "(\<exists>s e. buildServices st = Inr (s, e)) =
      (length (filter (\<lambda>s. svcType s = AccessoryInformation) (services st)) + 1
       + card (set (map (\<lambda>f. (InputSource, Some (favSubtype (number f))))
              (filter (\<lambda>f. case favIdentifier (number f) of None \<Rightarrow> False
                            | Some i \<Rightarrow> 0 < i \<and> i \<le> 999) (favourites st)))) \<le> 100)"
    by (rule buildServices_returns)
next
  show "buildServices st = Inr (st1, evs1) \<longrightarrow>
       ((\<forall>s\<in>set (services st). set (linkedServices s) \<subseteq> set (map svcKey (services st))) \<longrightarrow>
           (\<exists>evs2. buildServices st1 = Inr (st1, evs2)
              \<and> servicesRemoved evs2 =
                  map svcKey (filter (\<lambda>s. svcType s \<noteq> AccessoryInformation) (services st1))
              \<and> servicesAdded evs2 = servicesRemoved evs2))
      \<and> favourites st1 = favourites st
      \<and> distinct (map svcKey (filter (\<lambda>s. svcType s \<noteq> AccessoryInformation) (services st1)))
      \<and> inputServices st1 =
          map (\<lambda>f. (InputSource, Some (favSubtype (number f))))
            (filter (\<lambda>f. case favIdentifier (number f) of None \<Rightarrow> False
                          | Some i \<Rightarrow> 0 < i \<and> i \<le> 999) (favourites st))
      \<and> {k \<in> set (map svcKey (services st1)). fst k = InputSource} = set (inputServices st1)
      \<and> (\<forall>x\<in>set (services st1). \<forall>n. svcKey x = (InputSource, Some (favSubtype n)) \<longrightarrow>
            (\<exists>j. favIdentifier n = Some j \<and> 0 < j \<and> j \<le> 999
                 \<and> characteristics x Identifier = Some (CNumber j))
          \<and> characteristics x ConfiguredName =
              Some (CString (take 64 (name (last (filter (\<lambda>f. number f = n) (favourites st))))))
          \<and> characteristics x Name =
              Some (CString (take 64 (name (last (filter (\<lambda>f. number f = n) (favourites st))))))
          \<and> characteristics x IsConfigured = Some (CNumber 1)
          \<and> characteristics x CurrentVisibilityState = Some (CNumber 0)
          \<and> characteristics x InputSourceType = Some (CNumber 2))
      \<and> (\<forall>j. identifierToChannel st1 j =
            (let fs = filter (\<lambda>f. favIdentifier (number f) = Some j \<and> 0 < j \<and> j \<le> 999)
                        (favourites st)
             in if fs = [] then None else Some (number (last fs))))
      \<and> tvService st1 = (Television, None)
      \<and> (Television, None) \<in> set (map svcKey (services st1))
      \<and> (\<forall>x\<in>set (services st1). svcKey x = (Television, None) \<longrightarrow>
            linkedServices x = filter (\<lambda>k. fst k = InputSource) (map svcKey (services st1)))
      \<and> length (services st1) \<le> 100"
    by (rule impI) (rule buildServices_built)
qed

theorem buildServices_rebuild_witness:
  "(\<exists>s e. buildServices (fst started) = Inr (s, e))
   \<and> (\<exists>evs2. buildServices (fst (projr (buildServices (fst started)))) =
            Inr (fst (projr (buildServices (fst started))), evs2))
   \<and> map svcKey (services (fst (projr (buildServices (fst started))))) =
       [(AccessoryInformation, None), (Television, None), (InputSource, Some ''fav:1''),
        (InputSource, Some ''fav:2''), (InputSource, Some ''fav:3'')]
   \<and> characteristics (services (fst (projr (buildServices (fst started)))) ! 3) Identifier =
       Some (CNumber 2)
   \<and> characteristics (services (fst (projr (buildServices (fst started)))) ! 3) Name =
       Some (CString ''BBC Two'')
   \<and> identifierToChannel (fst (projr (buildServices (fst started)))) 2 = Some ''2''
   \<and> linkedServices (services (fst (projr (buildServices (fst started)))) ! 1) =
       [(InputSource, Some ''fav:1''), (InputSource, Some ''fav:2''), (InputSource, Some ''fav:3'')]"
proof -
  define S where "S = fst (projr (buildServices (fst started)))"
  define E where "E = snd (projr (buildServices (fst started)))"
  have few: "length (filter (\<lambda>s. svcType s = AccessoryInformation) (services (fst started))) + 1
       + card (set (map (\<lambda>f. (InputSource, Some (favSubtype (number f))))
              (filter (\<lambda>f. case favIdentifier (number f) of None \<Rightarrow> False
                            | Some i \<Rightarrow> 0 < i \<and> i \<le> 999) (favourites (fst started))))) \<le> 100"
    by code_simp
  have 0: "\<exists>s e. buildServices (fst started) = Inr (s, e)"
    by (rule buildServices_rebuild [THEN conjunct1, THEN iffD2, OF few])
  then have b: "buildServices (fst started) = Inr (S, E)"
    unfolding S_def E_def by auto
  have H: "\<forall>s\<in>set (services (fst started)).
             set (linkedServices s) \<subseteq> set (map svcKey (services (fst started)))"
    by code_simp
  note T = buildServices_rebuild [THEN conjunct2, THEN mp, OF b]
  have 1: "\<exists>evs2. buildServices S = Inr (S, evs2)"
    using T [THEN conjunct1, THEN mp, OF H] by blast
  have 2: "map svcKey (services S) =
       [(AccessoryInformation, None), (Television, None), (InputSource, Some ''fav:1''),
        (InputSource, Some ''fav:2''), (InputSource, Some ''fav:3'')]"
    unfolding S_def by code_simp
  have len: "3 < length (services S)" unfolding S_def by code_simp
  have x: "services S ! 3 \<in> set (services S)" using len by (rule nth_mem)
  have k: "svcKey (services S ! 3) = (InputSource, Some (favSubtype ''2''))"
    unfolding S_def by code_simp
  have favs: "favourites (fst started) = threeFavourites" by code_simp
  have id2: "favIdentifier ''2'' = Some 2"
    by (simp add: favIdentifier_def allDigits_def isDigit_def digitsValue_def digitVal_def)
  note C = T [THEN conjunct2, THEN conjunct2, THEN conjunct2, THEN conjunct2, THEN conjunct2,
      THEN conjunct1, THEN bspec, OF x, THEN spec, THEN mp, OF k]
  have 3: "characteristics (services S ! 3) Identifier = Some (CNumber 2)"
    using C [THEN conjunct1] unfolding id2 by auto
  have 4: "characteristics (services S ! 3) Name = Some (CString ''BBC Two'')"
    using C [THEN conjunct2, THEN conjunct2, THEN conjunct1]
    unfolding favs by (simp add: threeFavourites_def)
  have 5: "identifierToChannel S 2 = Some ''2''"
    unfolding S_def by code_simp
  have 6: "linkedServices (services S ! 1) =
       [(InputSource, Some ''fav:1''), (InputSource, Some ''fav:2''), (InputSource, Some ''fav:3'')]"
    unfolding S_def by code_simp
  show ?thesis unfolding S_def [symmetric] by (intro conjI 0 1 2 3 4 5 6)
qed

text \<open>
  The claim as stated fails: the services of \<open>started\<close> were built from three
  favourites, and building again from the same three removes the Television service and
  the three inputs and adds all four again.
\<close>

theorem rebuild_counterexample:
  "map_sum id (\<lambda>r. (servicesRemoved (snd r), servicesAdded (snd r)))
     (buildServices (fst started)) =
   Inr ([(Television, None), (InputSource, Some ''fav:1''), (InputSource, Some ''fav:2''),
         (InputSource, Some ''fav:3'')],
        [(Television, None), (InputSource, Some ''fav:1''), (InputSource, Some ''fav:2''),
         (InputSource, Some ''fav:3'')])"
  by code_simp

end
